theory Spec2Isabelle
  imports Complex_Main "HOL-Library.AList"
begin

section \<open>JavaScript strings\<close>

text \<open>
  A JavaScript string is modelled as a \<open>string\<close>: a list of 8-bit code units (the
  Latin-1 range of UTF-16 code units). \<open>length\<close> is the \<open>.length\<close> property.
\<close>

definition nl :: char where
  "nl = CHR 0x0A"

text \<open>The white space of \<open>trim()\<close> and of the regular expression class \<open>\s\<close>:
  tab, line feed, vertical tab, form feed, carriage return, space, no-break space.\<close>

definition is_ws :: "char \<Rightarrow> bool" where
  "is_ws c = (c = CHR '' '' \<or> c = CHR 0x0A \<or> c = CHR 0x09 \<or> c = CHR 0x0D
              \<or> c = CHR 0x0B \<or> c = CHR 0x0C \<or> c = CHR 0xA0)"

definition is_digit :: "char \<Rightarrow> bool" where
  "is_digit c = (let n = (of_char c :: nat) in 48 \<le> n \<and> n \<le> 57)"

definition is_lower :: "char \<Rightarrow> bool" where
  "is_lower c = (let n = (of_char c :: nat) in 97 \<le> n \<and> n \<le> 122)"

text \<open>\<open>String.prototype.toLowerCase\<close> on one code unit: \<open>A\<close>..\<open>Z\<close> and the
  Latin-1 capitals \<open>0xC0\<close>..\<open>0xDE\<close> (without the multiplication sign \<open>0xD7\<close>) move up
  by 32.\<close>

definition toLowerChar :: "char \<Rightarrow> char" where
  "toLowerChar c =
     (let n = (of_char c :: nat)
      in if (65 \<le> n \<and> n \<le> 90) \<or> (192 \<le> n \<and> n \<le> 222 \<and> n \<noteq> 215)
         then char_of (n + 32) else c)"

definition toLowerCase :: "string \<Rightarrow> string" where
  "toLowerCase s = map toLowerChar s"

definition trim :: "string \<Rightarrow> string" where
  "trim s = rev (dropWhile is_ws (rev (dropWhile is_ws s)))"

text \<open>\<open>s.substring(a, b)\<close> for non-negative integers: both indices are clamped to the
  length and swapped when they are out of order.\<close>

definition substring :: "string \<Rightarrow> nat \<Rightarrow> nat \<Rightarrow> string" where
  "substring s a b =
     (let a' = min a (length s); b' = min b (length s);
          lo = min a' b'; hi = max a' b'
      in take (hi - lo) (drop lo s))"

fun startsWith :: "string \<Rightarrow> string \<Rightarrow> bool" where
  "startsWith s [] = True"
| "startsWith [] (p # ps) = False"
| "startsWith (c # cs) (p # ps) = (if c = p then startsWith cs ps else False)"

text \<open>\<open>content.lastIndexOf(bp, fromIndex)\<close>: the largest index \<open>k \<le> fromIndex\<close> at which
  \<open>bp\<close> occurs in \<open>content\<close>, or \<open>-1\<close>. The scan runs over the suffixes of \<open>content\<close>,
  \<open>i\<close> being the index of the current suffix, and keeps the last match seen.\<close>

fun lastIndexOf_scan :: "string \<Rightarrow> string \<Rightarrow> nat \<Rightarrow> nat \<Rightarrow> int \<Rightarrow> int" where
  "lastIndexOf_scan [] bp i fromIndex best =
     (if bp = [] \<and> i \<le> fromIndex then int i else best)"
| "lastIndexOf_scan (c # cs) bp i fromIndex best =
     (if fromIndex < i then best
      else lastIndexOf_scan cs bp (Suc i) fromIndex
             (if startsWith (c # cs) bp then int i else best))"

definition lastIndexOf :: "string \<Rightarrow> string \<Rightarrow> nat \<Rightarrow> int" where
  "lastIndexOf content bp fromIndex = lastIndexOf_scan content bp 0 fromIndex (- 1)"

text \<open>\<open>parts.join(sep)\<close>.\<close>

fun join :: "string \<Rightarrow> string list \<Rightarrow> string" where
  "join sep [] = []"
| "join sep [x] = x"
| "join sep (x # y # ys) = x @ sep @ join sep (y # ys)"

text \<open>\<open>s.replace(/[^a-z0-9\s]/g, ' ')\<close>.\<close>

definition replaceNoise :: "string \<Rightarrow> string" where
  "replaceNoise s = map (\<lambda>c. if is_lower c \<or> is_digit c \<or> is_ws c then c else CHR '' '') s"

text \<open>\<open>s.split(/\s+/)\<close>: the pieces between maximal runs of white space; a string that
  starts or ends with white space gives an empty first or last piece, and the empty string
  gives one empty piece. \<open>insep\<close> says that the scan is inside a run of white space,
  \<open>cur\<close> is the current piece, reversed.\<close>

fun split_ws :: "bool \<Rightarrow> string \<Rightarrow> string \<Rightarrow> string list" where
  "split_ws insep cur [] = [rev cur]"
| "split_ws insep cur (c # cs) =
     (if is_ws c then (if insep then split_ws True cur cs else rev cur # split_ws True [] cs)
      else split_ws False (c # cur) cs)"

section \<open>Maps in insertion order\<close>

text \<open>
  A JavaScript \<open>Map\<close> iterates in insertion order, so it is an association list with
  distinct keys: \<open>m.get(k)\<close> is \<open>map_of m k\<close>, \<open>m.has(k)\<close> is \<open>map_of m k \<noteq> None\<close>,
  \<open>m.set(k, v)\<close> is \<open>AList.update k v m\<close> (an existing key keeps its place, a new key
  goes last) and \<open>m.size\<close> is \<open>length m\<close>.
\<close>

section \<open>The indexer\<close>

text \<open>
  The class \<open>ChatIndexer\<close> of \<open>js/chat-indexer.js\<close>. A chunk object, the fields of the
  engine and a message \<open>{role, content}\<close> are records; the fields \<open>id\<close>, \<open>text\<close>,
  \<open>start\<close>, \<open>end\<close> and \<open>keywords\<close> of a chunk and \<open>role\<close> and \<open>content\<close> of a
  message carry a prefix here. The configuration set by the constructor is constant. A
  method takes the engine and returns what the source returns, with the engine afterwards
  where the source changes it.
\<close>

record chunk =
  chunk_id :: nat
  chunk_text :: string
  chunk_start :: nat
  chunk_end :: nat
  chunk_keywords :: "(string \<times> nat) list"

record indexer =
  chunks :: "chunk list"
  keywordIndex :: "(string \<times> nat list) list"
  documentFrequency :: "(string \<times> nat) list"
  isIndexed :: bool

record message =
  msg_role :: string
  msg_content :: string

text \<open>The one exception that the methods can raise on these types: reading a property
  of \<open>undefined\<close>.\<close>

datatype error = TypeError

definition CHUNK_SIZE :: nat where "CHUNK_SIZE = 800"
definition CHUNK_OVERLAP :: nat where "CHUNK_OVERLAP = 150"
definition TOP_K :: int where "TOP_K = 4"
definition MAX_CONTEXT_CHARS :: nat where "MAX_CONTEXT_CHARS = 3000"
definition maxIterations :: nat where "maxIterations = 5000"

definition STOP_WORDS :: "string list" where
  "STOP_WORDS =
    [''the'', ''a'', ''an'', ''and'', ''or'', ''but'', ''in'', ''on'', ''at'', ''to'', ''for'',
     ''of'', ''with'', ''by'', ''is'', ''are'', ''was'', ''were'', ''be'', ''been'', ''being'',
     ''have'', ''has'', ''had'', ''do'', ''does'', ''did'', ''will'', ''would'', ''could'',
     ''should'', ''may'', ''might'', ''must'', ''this'', ''that'', ''these'', ''those'',
     ''it'', ''its'', ''you'', ''your'', ''we'', ''our'', ''they'', ''their'', ''he'', ''she'',
     ''his'', ''her'', ''i'', ''my'', ''me'', ''can'', ''just'', ''so'', ''as'', ''if'', ''then'',
     ''than'', ''when'', ''what'', ''which'', ''who'', ''how'', ''all'', ''each'', ''every'',
     ''both'', ''few'', ''more'', ''most'', ''other'', ''some'', ''such'', ''no'', ''not'',
     ''only'', ''same'', ''into'', ''from'', ''up'', ''down'', ''out'', ''about'', ''after'',
     ''before'', ''between'', ''through'', ''during'', ''above'', ''below'']"

definition init :: indexer where
  "init = \<lparr>chunks = [], keywordIndex = [], documentFrequency = [], isIndexed = False\<rparr>"

subsection \<open>extractKeywords\<close>

text \<open>The filter on the words: longer than two characters, no stop word, and not matched
  by the pattern \<open>^[0-9]+$\<close> (one or more digits and nothing else).\<close>

definition keepWord :: "string \<Rightarrow> bool" where
  "keepWord word =
     (length word > 2 \<and> \<not> List.member STOP_WORDS word
      \<and> \<not> (word \<noteq> [] \<and> list_all is_digit word))"

text \<open>The tally \<open>wordFreq.set(word, (wordFreq.get(word) || 0) + 1)\<close> over the words.\<close>

fun countWords :: "string list \<Rightarrow> (string \<times> nat) list \<Rightarrow> (string \<times> nat) list" where
  "countWords [] wordFreq = wordFreq"
| "countWords (word # words) wordFreq =
     countWords words
       (AList.update word ((case map_of wordFreq word of None \<Rightarrow> 0 | Some n \<Rightarrow> n) + 1) wordFreq)"

definition extractKeywords :: "string \<Rightarrow> (string \<times> nat) list" where
  "extractKeywords txt =
     countWords (filter keepWord (split_ws False [] (replaceNoise (toLowerCase txt)))) []"

subsection \<open>createChunks\<close>

text \<open>The boundary markers, in the order of the source: the two role labels after a blank
  line, the end of a sentence, a line feed.\<close>

definition breakPoints :: "string list" where
  "breakPoints = [[nl, nl] @ ''[USER]:'', [nl, nl] @ ''[ASSISTANT]:'', ''. '', [nl]]"

text \<open>The \<open>for (const bp of breakPoints)\<close> loop; \<open>e\<close> is the proposed end.\<close>

fun bestBreakLoop :: "string \<Rightarrow> nat \<Rightarrow> int \<Rightarrow> string list \<Rightarrow> int \<Rightarrow> int" where
  "bestBreakLoop content e searchStart [] bestBreak = bestBreak"
| "bestBreakLoop content e searchStart (bp # bps) bestBreak =
     (let pos = lastIndexOf content bp e
      in bestBreakLoop content e searchStart bps
           (if pos > searchStart \<and> pos > bestBreak
            then pos + (if bp = ''. '' then 2 else int (length bp))
            else bestBreak))"

text \<open>The end of the window that starts at \<open>start\<close> (lines 81 to 99 of the source).\<close>

definition chunkEnd :: "string \<Rightarrow> nat \<Rightarrow> nat" where
  "chunkEnd content start =
     (let e = min (start + CHUNK_SIZE) (length content)
      in if e < length content
         then (let searchStart = max (start + CHUNK_SIZE - 100) start;
                   bestBreak = bestBreakLoop content e (int searchStart) breakPoints (- 1)
               in if bestBreak > int start then nat bestBreak else e)
         else e)"

text \<open>The body of the \<open>while\<close> loop up to the push: the chunks after this window.\<close>

definition pushChunk :: "string \<Rightarrow> nat \<Rightarrow> nat \<Rightarrow> chunk list \<Rightarrow> chunk list" where
  "pushChunk content start e cs =
     (let chunkText = trim (substring content start e)
      in if length chunkText > 30
         then cs @ [\<lparr>chunk_id = length cs, chunk_text = chunkText, chunk_start = start,
                     chunk_end = e, chunk_keywords = extractKeywords chunkText\<rparr>]
         else cs)"

text \<open>The \<open>while\<close> loop. \<open>iterations\<close> is the counter before its increment; the new
  start \<open>Math.max(start + 1, end - CHUNK_OVERLAP)\<close> is at least 1, so the truncating
  subtraction of \<open>nat\<close> gives the same maximum; \<open>start >= content.length - 30\<close> is
  written without the subtraction.\<close>

function createChunks_loop :: "string \<Rightarrow> nat \<Rightarrow> nat \<Rightarrow> chunk list \<Rightarrow> chunk list" where
  "createChunks_loop content start iterations cs =
     (if start < length content \<and> iterations < maxIterations
      then (let e = chunkEnd content start;
                cs' = pushChunk content start e cs;
                start' = max (start + 1) (e - CHUNK_OVERLAP)
            in if start' + 30 \<ge> length content then cs'
               else createChunks_loop content start' (iterations + 1) cs')
      else cs)"
  by pat_completeness auto
termination
  by (relation "measure (\<lambda>(content, start, iterations, cs). maxIterations - iterations)") auto

declare createChunks_loop.simps [simp del]

definition createChunks :: "string \<Rightarrow> chunk list" where
  "createChunks content = createChunks_loop content 0 0 []"

subsection \<open>buildKeywordIndex\<close>

text \<open>The inner loop over the keywords of the chunk \<open>cid\<close>: the posting list of the
  keyword gets the id at its end, the document frequency goes up by one.\<close>

fun indexKeywords ::
  "nat \<Rightarrow> (string \<times> nat) list \<Rightarrow> (string \<times> nat list) list \<times> (string \<times> nat) list
     \<Rightarrow> (string \<times> nat list) list \<times> (string \<times> nat) list" where
  "indexKeywords cid [] (ki, df) = (ki, df)"
| "indexKeywords cid ((keyword, freq) # kws) (ki, df) =
     indexKeywords cid kws
       (AList.update keyword ((case map_of ki keyword of None \<Rightarrow> [] | Some ids \<Rightarrow> ids) @ [cid]) ki,
        AList.update keyword ((case map_of df keyword of None \<Rightarrow> 0 | Some n \<Rightarrow> n) + 1) df)"

fun buildKeywordIndex_loop ::
  "chunk list \<Rightarrow> (string \<times> nat list) list \<times> (string \<times> nat) list
     \<Rightarrow> (string \<times> nat list) list \<times> (string \<times> nat) list" where
  "buildKeywordIndex_loop [] acc = acc"
| "buildKeywordIndex_loop (c # cs) acc =
     buildKeywordIndex_loop cs (indexKeywords (chunk_id c) (chunk_keywords c) acc)"

definition buildKeywordIndex :: "indexer \<Rightarrow> indexer" where
  "buildKeywordIndex s =
     (let acc = buildKeywordIndex_loop (chunks s) (keywordIndex s, documentFrequency s)
      in s\<lparr>keywordIndex := fst acc, documentFrequency := snd acc\<rparr>)"

subsection \<open>indexConversation\<close>

text \<open>The transcript: every message with its role label, joined by blank lines.\<close>

definition roleLabel :: "message \<Rightarrow> string" where
  "roleLabel msg =
     ''['' @ (if msg_role msg = ''user'' then ''USER'' else ''ASSISTANT'') @ '']: '' @ msg_content msg"

definition conversationText :: "message list \<Rightarrow> string" where
  "conversationText messages = join [nl, nl] (map roleLabel messages)"

text \<open>\<open>messages\<close> is \<open>None\<close> when the argument is absent (\<open>null\<close> or \<open>undefined\<close>).
  The result is the returned count and the engine afterwards.\<close>

definition indexConversation :: "indexer \<Rightarrow> message list option \<Rightarrow> nat \<times> indexer" where
  "indexConversation s messages =
     (case messages of
        None \<Rightarrow> (0, s)
      | Some ms \<Rightarrow>
          if length ms = 0 then (0, s)
          else (let s1 = s\<lparr>chunks := [], keywordIndex := [], documentFrequency := []\<rparr>;
                    s2 = s1\<lparr>chunks := createChunks (conversationText ms)\<rparr>;
                    s3 = buildKeywordIndex s2;
                    s4 = s3\<lparr>isIndexed := True\<rparr>
                in (length (chunks s4), s4)))"

definition clear :: "indexer \<Rightarrow> indexer" where
  "clear s = s\<lparr>chunks := [], keywordIndex := [], documentFrequency := [], isIndexed := False\<rparr>"

subsection \<open>search\<close>

text \<open>\<open>xs.slice(k)\<close> and \<open>xs.slice(0, k)\<close> for an integer \<open>k\<close>: a negative index counts
  from the end, and both are clamped to the array.\<close>

definition relativeIndex :: "nat \<Rightarrow> int \<Rightarrow> nat" where
  "relativeIndex len k = (if k < 0 then nat (max (int len + k) 0) else min (nat k) len)"

definition slice_from :: "'a list \<Rightarrow> int \<Rightarrow> 'a list" where
  "slice_from xs k = drop (relativeIndex (length xs) k) xs"

definition slice_to :: "'a list \<Rightarrow> int \<Rightarrow> 'a list" where
  "slice_to xs k = take (relativeIndex (length xs) k) xs"

text \<open>\<open>xs[i]\<close>: \<open>None\<close> is \<open>undefined\<close>.\<close>

definition nth_opt :: "'a list \<Rightarrow> nat \<Rightarrow> 'a option" where
  "nth_opt xs i = (if i < length xs then Some (xs ! i) else None)"

text \<open>The loop over the query keywords for one chunk. Scores are JavaScript numbers,
  taken here as real numbers with the natural logarithm for \<open>Math.log\<close>.\<close>

fun scoreLoop :: "indexer \<Rightarrow> chunk \<Rightarrow> (string \<times> nat) list \<Rightarrow> real \<Rightarrow> real" where
  "scoreLoop s c [] score = score"
| "scoreLoop s c ((queryWord, queryFreq) # qs) score =
     scoreLoop s c qs
       (case map_of (chunk_keywords c) queryWord of
          None \<Rightarrow> score
        | Some tf \<Rightarrow>
            (let df = (case map_of (documentFrequency s) queryWord of
                         None \<Rightarrow> 1 | Some d \<Rightarrow> if d = 0 then 1 else d);
                 idf = ln (real (length (chunks s)) / real df)
             in score + real tf * idf * real queryFreq))"

text \<open>The score of a chunk with its recency boost, and the loop over the chunks that
  fills the \<open>scores\<close> map with the positive scores.\<close>

definition chunkScore :: "indexer \<Rightarrow> (string \<times> nat) list \<Rightarrow> chunk \<Rightarrow> real" where
  "chunkScore s queryKeywords c =
     scoreLoop s c queryKeywords 0
       * (1 + (real (chunk_id c) / real (length (chunks s))) * 0.3)"

fun scoresLoop ::
  "indexer \<Rightarrow> (string \<times> nat) list \<Rightarrow> chunk list \<Rightarrow> (nat \<times> real) list \<Rightarrow> (nat \<times> real) list" where
  "scoresLoop s queryKeywords [] scores = scores"
| "scoresLoop s queryKeywords (c # cs) scores =
     (let score = chunkScore s queryKeywords c
      in scoresLoop s queryKeywords cs
           (if score > 0 then AList.update (chunk_id c) score scores else scores))"

text \<open>\<open>sortedChunks.sort((a, b) => a.start - b.start)\<close>: \<open>Array.prototype.sort\<close> is stable
  and moves every \<open>undefined\<close> element to the end without calling the comparator.\<close>

definition sortByStart :: "chunk option list \<Rightarrow> chunk option list" where
  "sortByStart xs =
     map Some (sort_key chunk_start (List.map_filter (\<lambda>x. x) xs)) @ filter (\<lambda>x. x = None) xs"

text \<open>\<open>search(query, topK)\<close>; \<open>topK\<close> is an integer, \<open>TOP_K\<close> when the caller gives
  none. The entries of the \<open>scores\<close> map are sorted by falling score (the sort is stable),
  cut to \<open>topK\<close>, replaced by the chunks of their ids and sorted by start offset.\<close>

definition search :: "indexer \<Rightarrow> string \<Rightarrow> int \<Rightarrow> chunk option list" where
  "search s query topK =
     (if \<not> isIndexed s \<or> length (chunks s) = 0 then []
      else (let queryKeywords = extractKeywords query
            in if length queryKeywords = 0 then map Some (slice_from (chunks s) (- topK))
               else (let scores = scoresLoop s queryKeywords (chunks s) [];
                         sortedChunks =
                           map (\<lambda>(cid, score). nth_opt (chunks s) cid)
                             (slice_to (sort_key (\<lambda>(cid, score). - score) scores) topK)
                     in sortByStart sortedChunks)))"

subsection \<open>getContextForQuery\<close>

text \<open>The \<open>for\<close> loop over the relevant chunks; reading \<open>chunk.text\<close> of an
  \<open>undefined\<close> element raises a \<open>TypeError\<close>.\<close>

fun assemble :: "string \<Rightarrow> chunk option list \<Rightarrow> error + string" where
  "assemble ctx [] = Inr ctx"
| "assemble ctx (None # rest) = Inl TypeError"
| "assemble ctx (Some c # rest) =
     (if length ctx + length (chunk_text c) > MAX_CONTEXT_CHARS
      then (let remaining = int MAX_CONTEXT_CHARS - int (length ctx) - 10
            in if remaining > 50
               then Inr (ctx @ [nl] @ ''...'' @ [nl]
                           @ substring (chunk_text c) 0 (nat remaining) @ ''...'')
               else Inr ctx)
      else assemble (ctx @ (if ctx \<noteq> [] then [nl, nl] else []) @ chunk_text c) rest)"

definition getContextForQuery :: "indexer \<Rightarrow> string \<Rightarrow> error + string" where
  "getContextForQuery s query =
     (let relevantChunks = search s query TOP_K
      in if length relevantChunks = 0 then Inr [] else assemble [] relevantChunks)"

subsection \<open>The states of the engine\<close>

text \<open>The engine starts as the constructor leaves it and changes only through
  \<open>indexConversation\<close> and \<open>clear\<close>.\<close>

inductive reachable :: "indexer \<Rightarrow> bool" where
  reachable_init: "reachable init"
| reachable_index: "reachable s \<Longrightarrow> reachable (snd (indexConversation s messages))"
| reachable_clear: "reachable s \<Longrightarrow> reachable (clear s)"

section \<open>Derived notions\<close>

text \<open>What the invariants and the theorems below speak of. Chunk ids are the positions
  in the chunk array:\<close>

definition ids_ok :: "chunk list \<Rightarrow> bool" where
  "ids_ok cs = (map chunk_id cs = [0..<length cs])"

text \<open>A window is at most \<open>CHUNK_SIZE\<close> characters plus the longest boundary marker
  (14 characters) long:\<close>

definition texts_ok :: "chunk list \<Rightarrow> bool" where
  "texts_ok cs = list_all (\<lambda>c. length (chunk_text c) \<le> 814) cs"

text \<open>Start offsets grow along the chunks, and a chunk ends at most \<open>CHUNK_OVERLAP\<close>
  characters after the start of every later chunk:\<close>

definition chunks_ordered :: "chunk list \<Rightarrow> bool" where
  "chunks_ordered cs =
     sorted_wrt (\<lambda>a b. chunk_start a < chunk_start b \<and> chunk_end a \<le> chunk_start b + CHUNK_OVERLAP) cs"

text \<open>The keyword map of every chunk has distinct keys:\<close>

definition keywords_ok :: "chunk list \<Rightarrow> bool" where
  "keywords_ok cs = list_all (\<lambda>c. distinct (map fst (chunk_keywords c))) cs"

text \<open>\<open>m.get(k) || []\<close> and \<open>m.get(k) || 0\<close>:\<close>

definition lookupList :: "('k \<times> 'v list) list \<Rightarrow> 'k \<Rightarrow> 'v list" where
  "lookupList m k = (case map_of m k of None \<Rightarrow> [] | Some ids \<Rightarrow> ids)"

definition lookupNat :: "('k \<times> nat) list \<Rightarrow> 'k \<Rightarrow> nat" where
  "lookupNat m k = (case map_of m k of None \<Rightarrow> 0 | Some n \<Rightarrow> n)"

text \<open>\<open>chunk.keywords.has(w)\<close>, and the ids of the chunks that have the keyword, in
  the order of the chunk array:\<close>

definition hasKeyword :: "chunk \<Rightarrow> string \<Rightarrow> bool" where
  "hasKeyword c w = (map_of (chunk_keywords c) w \<noteq> None)"

definition postings :: "chunk list \<Rightarrow> string \<Rightarrow> nat list" where
  "postings cs w = map chunk_id (filter (\<lambda>c. hasKeyword c w) cs)"

text \<open>Every frequency in the keyword maps is positive:\<close>

definition kwpos :: "chunk list \<Rightarrow> bool" where
  "kwpos cs = list_all (\<lambda>c. list_all (\<lambda>(w, n). 0 < n) (chunk_keywords c)) cs"

text \<open>The invariant of the engine: the properties above, and the two index maps agree
  with the chunks.\<close>

definition state_ok :: "indexer \<Rightarrow> bool" where
  "state_ok s = (ids_ok (chunks s) \<and> texts_ok (chunks s) \<and> keywords_ok (chunks s)
     \<and> kwpos (chunks s) \<and> chunks_ordered (chunks s)
     \<and> (\<forall>w. lookupNat (documentFrequency s) w = length (postings (chunks s) w))
     \<and> (\<forall>w. lookupList (keywordIndex s) w = postings (chunks s) w))"

text \<open>A keyword of the query \<open>q\<close> is a keyword of the chunk:\<close>

definition queryHits :: "string \<Rightarrow> chunk \<Rightarrow> bool" where
  "queryHits q c = list_ex (\<lambda>(w, f). hasKeyword c w) (extractKeywords q)"

text \<open>The running context of \<open>getContextForQuery\<close> after the chunks \<open>cs\<close> were added
  to \<open>ctx\<close>, and the test that each of them fit when its turn came:\<close>

fun joinTexts :: "string \<Rightarrow> chunk list \<Rightarrow> string" where
  "joinTexts ctx [] = ctx"
| "joinTexts ctx (c # cs) = joinTexts (ctx @ (if ctx \<noteq> [] then [nl, nl] else []) @ chunk_text c) cs"

fun allFit :: "string \<Rightarrow> chunk list \<Rightarrow> bool" where
  "allFit ctx [] = True"
| "allFit ctx (c # cs) =
     (if length ctx + length (chunk_text c) > MAX_CONTEXT_CHARS then False
      else allFit (ctx @ (if ctx \<noteq> [] then [nl, nl] else []) @ chunk_text c) cs)"

text \<open>The windows \<open>(start, end)\<close> that the loop of \<open>createChunks\<close> visits, stored or
  not: the same loop without the chunks. A window is kept when its trimmed slice has more
  than 30 characters.\<close>

function windows_loop :: "string \<Rightarrow> nat \<Rightarrow> nat \<Rightarrow> (nat \<times> nat) list" where
  "windows_loop content start iterations =
     (if start < length content \<and> iterations < maxIterations
      then (let e = chunkEnd content start;
                start' = max (start + 1) (e - CHUNK_OVERLAP)
            in (start, e) #
               (if start' + 30 \<ge> length content then []
                else windows_loop content start' (iterations + 1)))
      else [])"
  by pat_completeness auto
termination
  by (relation "measure (\<lambda>(content, start, iterations). maxIterations - iterations)") auto

declare windows_loop.simps [simp del]

definition windows :: "string \<Rightarrow> (nat \<times> nat) list" where
  "windows content = windows_loop content 0 0"

definition windowKept :: "string \<Rightarrow> nat \<times> nat \<Rightarrow> bool" where
  "windowKept content w = (30 < length (trim (substring content (fst w) (snd w))))"

section \<open>Example conversations\<close>

definition sp :: char where "sp = CHR '' ''"

text \<open>\<open>m0\<close>: one short user message; the transcript \<open>[USER]: hi\<close> is 10 characters long
  and gives no chunk.\<close>

definition m0 :: "message list" where
  "m0 = [\<lparr>msg_role = ''user'', msg_content = ''hi''\<rparr>]"

text \<open>\<open>m1\<close>: one user message whose transcript is 31 characters long. It gives the one
  chunk \<open>c1\<close>; \<open>s1\<close> is the engine after indexing it.\<close>

definition m1 :: "message list" where
  "m1 = [\<lparr>msg_role = ''user'', msg_content = ''rust ownership borrowck''\<rparr>]"

definition s1 :: indexer where
  "s1 = snd (indexConversation init (Some m1))"

definition c1 :: chunk where
  "c1 = \<lparr>chunk_id = 0, chunk_text = ''[USER]: rust ownership borrowck'', chunk_start = 0,
         chunk_end = 31,
         chunk_keywords = [(''user'', 1), (''rust'', 1), (''ownership'', 1), (''borrowck'', 1)]\<rparr>"

text \<open>\<open>m2\<close>: a user message of two short runs of words with 1412 spaces between them and
  815 after. Its transcript \<open>t2\<close> is 2300 characters long; the windows are \<open>[0, 800)\<close>,
  \<open>[650, 1450)\<close> (all spaces, dropped), \<open>[1300, 2100)\<close> and a tail of spaces. The two
  chunks are \<open>c2a\<close> and \<open>c2b\<close>; \<open>s2\<close> is the engine after indexing.\<close>

definition m2 :: "message list" where
  "m2 = [\<lparr>msg_role = ''user'',
          msg_content = ''alpha beta gamma delta epsilon'' @ replicate 1412 sp
            @ ''omega omega omega omega omega omega'' @ replicate 815 sp\<rparr>]"

definition t2 :: string where
  "t2 = ''[USER]: alpha beta gamma delta epsilon'' @ replicate 1412 sp
          @ ''omega omega omega omega omega omega'' @ replicate 815 sp"

definition c2a :: chunk where
  "c2a = \<lparr>chunk_id = 0, chunk_text = ''[USER]: alpha beta gamma delta epsilon'', chunk_start = 0,
          chunk_end = 800,
          chunk_keywords = [(''user'', 1), (''alpha'', 1), (''beta'', 1), (''gamma'', 1),
                            (''delta'', 1), (''epsilon'', 1)]\<rparr>"

definition c2b :: chunk where
  "c2b = \<lparr>chunk_id = 1, chunk_text = ''omega omega omega omega omega omega'', chunk_start = 1300,
          chunk_end = 2100, chunk_keywords = [(''omega'', 6)]\<rparr>"

definition s2 :: indexer where
  "s2 = snd (indexConversation init (Some m2))"

text \<open>\<open>m3\<close>: a user message of one letter among spaces. Its transcript \<open>t3\<close> is 1200
  characters long, with the letter at offset 900.\<close>

definition m3 :: "message list" where
  "m3 = [\<lparr>msg_role = ''user'', msg_content = replicate 892 sp @ ''x'' @ replicate 299 sp\<rparr>]"

definition t3 :: string where
  "t3 = ''[USER]: '' @ replicate 892 sp @ ''x'' @ replicate 299 sp"

text \<open>\<open>m4 n\<close>: a user message of \<open>2592 - n\<close> letters and \<open>150 + n\<close> spaces. Its
  transcript \<open>t4 n\<close> is 2750 characters long and gives, for \<open>n \<le> 500\<close>, four chunks of
  800, 800, 800 and \<open>650 - n\<close> characters; \<open>s4 n\<close> is the engine after indexing.\<close>

definition m4 :: "nat \<Rightarrow> message list" where
  "m4 n = [\<lparr>msg_role = ''user'',
            msg_content = replicate (2592 - n) CHR ''x'' @ replicate (150 + n) sp\<rparr>]"

definition t4 :: "nat \<Rightarrow> string" where
  "t4 n = ''[USER]: '' @ replicate (2592 - n) CHR ''x'' @ replicate (150 + n) sp"

definition s4 :: "nat \<Rightarrow> indexer" where
  "s4 n = snd (indexConversation init (Some (m4 n)))"

definition c4a :: chunk where
  "c4a = \<lparr>chunk_id = 0, chunk_text = ''[USER]: '' @ replicate 792 CHR ''x'', chunk_start = 0,
          chunk_end = 800,
          chunk_keywords = extractKeywords (''[USER]: '' @ replicate 792 CHR ''x'')\<rparr>"

definition c4b :: chunk where
  "c4b = \<lparr>chunk_id = 1, chunk_text = replicate 800 CHR ''x'', chunk_start = 650,
          chunk_end = 1450, chunk_keywords = extractKeywords (replicate 800 CHR ''x'')\<rparr>"

definition c4c :: chunk where
  "c4c = \<lparr>chunk_id = 2, chunk_text = replicate 800 CHR ''x'', chunk_start = 1300,
          chunk_end = 2100, chunk_keywords = extractKeywords (replicate 800 CHR ''x'')\<rparr>"

definition c4d :: "nat \<Rightarrow> chunk" where
  "c4d n = \<lparr>chunk_id = 3, chunk_text = replicate (650 - n) CHR ''x'', chunk_start = 1950,
            chunk_end = 2750, chunk_keywords = extractKeywords (replicate (650 - n) CHR ''x'')\<rparr>"

text \<open>\<open>m5\<close>: a user message of 24 letters and a trailing blank; the transcript is 33
  characters long and has the three windows \<open>[0, 33)\<close>, \<open>[1, 33)\<close> and \<open>[2, 33)\<close>.
  The first two trim to 32 and 31 characters and are stored, the last trims to 30 and is
  dropped.\<close>

definition m5 :: "message list" where
  "m5 = [\<lparr>msg_role = ''user'', msg_content = ''xxxxxxxxxxxxxxxxxxxxxxxx ''\<rparr>]"

section \<open>Strings and windows\<close>

lemma length_trim_le: "length (trim s) \<le> length s"
proof -
  have "length (trim s) \<le> length (dropWhile is_ws s)"
    unfolding trim_def using length_dropWhile_le [of is_ws "rev (dropWhile is_ws s)"] by simp
  also have "\<dots> \<le> length s" by (rule length_dropWhile_le)
  finally show ?thesis .
qed

lemma length_substring_le: "a \<le> b \<Longrightarrow> length (substring s a b) \<le> b - a"
  by (auto simp: substring_def Let_def min_def max_def)

lemma lastIndexOf_scan_le:
  "best \<le> int fromIndex \<Longrightarrow> lastIndexOf_scan cs bp i fromIndex best \<le> int fromIndex"
  by (induction cs arbitrary: i best) auto

lemma lastIndexOf_le: "lastIndexOf content bp fromIndex \<le> int fromIndex"
  unfolding lastIndexOf_def by (rule lastIndexOf_scan_le) simp

lemma bestBreakLoop_le:
  "\<forall>bp \<in> set bps. length bp \<le> 14 \<Longrightarrow> bestBreak \<le> int e + 14 \<Longrightarrow>
     bestBreakLoop content e searchStart bps bestBreak \<le> int e + 14"
proof (induction bps arbitrary: bestBreak)
  case Nil
  then show ?case by simp
next
  case (Cons bp bps)
  have "lastIndexOf content bp e \<le> int e" by (rule lastIndexOf_le)
  moreover have "length bp \<le> 14" using Cons.prems by simp
  ultimately show ?case using Cons by (auto simp: Let_def intro!: Cons.IH)
qed

lemma breakPoints_short: "\<forall>bp \<in> set breakPoints. length bp \<le> 14"
  by (simp add: breakPoints_def)

lemma chunkEnd_gt: "start < length content \<Longrightarrow> start < chunkEnd content start"
  by (auto simp: chunkEnd_def Let_def CHUNK_SIZE_def)

lemma chunkEnd_le: "chunkEnd content start \<le> start + 814"
proof -
  define e where "e = min (start + CHUNK_SIZE) (length content)"
  define b where "b = bestBreakLoop content e (int (max (start + CHUNK_SIZE - 100) start)) breakPoints (- 1)"
  have e: "e \<le> start + 800" by (simp add: e_def CHUNK_SIZE_def)
  have "b \<le> int e + 14"
    unfolding b_def by (rule bestBreakLoop_le [OF breakPoints_short]) simp
  then have "nat b \<le> start + 814" using e by linarith
  moreover have "chunkEnd content start = e \<or> chunkEnd content start = nat b"
    by (simp add: chunkEnd_def Let_def e_def b_def)
  ultimately show ?thesis using e by auto
qed

text \<open>An invariant of the loop holds of the chunks it returns.\<close>

lemma createChunks_loop_rule:
  assumes "I start cs"
    and step: "\<And>start cs. I start cs \<Longrightarrow> start < length content \<Longrightarrow>
           I (max (start + 1) (chunkEnd content start - CHUNK_OVERLAP))
             (pushChunk content start (chunkEnd content start) cs)"
    and final: "\<And>start cs. I start cs \<Longrightarrow> Q cs"
  shows "Q (createChunks_loop content start iterations cs)"
  using assms
proof (induction content start iterations cs rule: createChunks_loop.induct)
  case (1 content start iterations cs)
  note I0 = "1.prems"(1) and step = "1.prems"(2) and final = "1.prems"(3)
  show ?case
  proof (cases "start < length content \<and> iterations < maxIterations")
    case False
    then show ?thesis using final [OF I0] by (subst createChunks_loop.simps) auto
  next
    case True
    let ?e = "chunkEnd content start"
    let ?cs = "pushChunk content start ?e cs"
    let ?start = "max (start + 1) (?e - CHUNK_OVERLAP)"
    have I': "I ?start ?cs" by (rule step [OF I0]) (use True in simp)
    show ?thesis
    proof (cases "?start + 30 \<ge> length content")
      case stop: True
      then show ?thesis using True final [OF I']
        by (subst createChunks_loop.simps) (simp add: Let_def)
    next
      case go: False
      have "Q (createChunks_loop content ?start (iterations + 1) ?cs)"
        by (rule "1.IH" [OF True refl refl refl go I' step final])
      then show ?thesis using True go
        by (subst createChunks_loop.simps) (simp add: Let_def)
    qed
  qed
qed

lemma ids_ok_pushChunk: "ids_ok cs \<Longrightarrow> ids_ok (pushChunk content start e cs)"
  by (simp add: ids_ok_def pushChunk_def Let_def)

lemma ids_ok_createChunks: "ids_ok (createChunks content)"
  unfolding createChunks_def
  by (rule createChunks_loop_rule [where I = "\<lambda>start cs. ids_ok cs"])
     (simp_all add: ids_ok_def ids_ok_pushChunk [unfolded ids_ok_def])

lemma length_window_text:
  assumes "start < length content"
  shows "length (trim (substring content start (chunkEnd content start))) \<le> 814"
proof -
  have le: "start \<le> chunkEnd content start" using chunkEnd_gt [OF assms] by simp
  have "length (trim (substring content start (chunkEnd content start)))
          \<le> length (substring content start (chunkEnd content start))"
    by (rule length_trim_le)
  also have "\<dots> \<le> chunkEnd content start - start" by (rule length_substring_le [OF le])
  also have "\<dots> \<le> 814" using chunkEnd_le [of content start] by simp
  finally show ?thesis .
qed

lemma texts_ok_createChunks: "texts_ok (createChunks content)"
  unfolding createChunks_def
proof (rule createChunks_loop_rule [where I = "\<lambda>start cs. texts_ok cs"])
  show "texts_ok []" by (simp add: texts_ok_def)
next
  fix start cs
  assume "texts_ok cs" "start < length content"
  then show "texts_ok (pushChunk content start (chunkEnd content start) cs)"
    using length_window_text [of start content]
    by (simp add: texts_ok_def pushChunk_def Let_def)
qed

lemma chunks_ordered_createChunks: "chunks_ordered (createChunks content)"
  unfolding createChunks_def
proof (rule createChunks_loop_rule
    [where I = "\<lambda>start cs. chunks_ordered cs \<and>
        (\<forall>c \<in> set cs. chunk_start c < start \<and> chunk_end c \<le> start + CHUNK_OVERLAP)"])
  show "chunks_ordered [] \<and> (\<forall>c \<in> set []. chunk_start c < 0 \<and> chunk_end c \<le> 0 + CHUNK_OVERLAP)"
    by (simp add: chunks_ordered_def)
next
  fix start cs
  assume inv: "chunks_ordered cs \<and>
      (\<forall>c \<in> set cs. chunk_start c < start \<and> chunk_end c \<le> start + CHUNK_OVERLAP)"
    and "start < length content"
  let ?e = "chunkEnd content start"
  let ?start = "max (start + 1) (?e - CHUNK_OVERLAP)"
  have "chunks_ordered (pushChunk content start ?e cs)"
    using inv by (auto simp: chunks_ordered_def pushChunk_def Let_def sorted_wrt_append)
  moreover have "\<forall>c \<in> set (pushChunk content start ?e cs).
      chunk_start c < ?start \<and> chunk_end c \<le> ?start + CHUNK_OVERLAP"
    using inv by (auto simp: pushChunk_def Let_def)
  ultimately show "chunks_ordered (pushChunk content start ?e cs) \<and>
     (\<forall>c \<in> set (pushChunk content start ?e cs).
        chunk_start c < ?start \<and> chunk_end c \<le> ?start + CHUNK_OVERLAP)"
    by blast
qed simp

section \<open>Keyword maps and the inverted index\<close>

lemma countWords_distinct:
  "distinct (map fst wordFreq) \<Longrightarrow> distinct (map fst (countWords ws wordFreq))"
  by (induction ws arbitrary: wordFreq) (simp_all add: distinct_update)

lemma countWords_pos:
  "(\<And>w n. map_of wordFreq w = Some n \<Longrightarrow> 0 < n) \<Longrightarrow>
     map_of (countWords ws wordFreq) w = Some n \<Longrightarrow> 0 < n"
proof (induction ws arbitrary: wordFreq)
  case Nil
  then show ?case by simp
next
  case (Cons a ws)
  show ?case
  proof (rule Cons.IH [of "AList.update a ((case map_of wordFreq a of None \<Rightarrow> 0 | Some n \<Rightarrow> n) + 1) wordFreq"])
    fix w' n'
    assume "map_of (AList.update a ((case map_of wordFreq a of None \<Rightarrow> 0 | Some n \<Rightarrow> n) + 1) wordFreq) w' = Some n'"
    then show "0 < n'" using Cons.prems(1) [of w' n']
      by (auto simp: update_conv' split: if_splits)
  next
    show "map_of (countWords ws (AList.update a ((case map_of wordFreq a of None \<Rightarrow> 0 | Some n \<Rightarrow> n) + 1) wordFreq)) w = Some n"
      using Cons.prems(2) by simp
  qed
qed

lemma extractKeywords_distinct: "distinct (map fst (extractKeywords txt))"
  unfolding extractKeywords_def by (rule countWords_distinct) simp

lemma extractKeywords_pos: "map_of (extractKeywords txt) w = Some n \<Longrightarrow> 0 < n"
  unfolding extractKeywords_def by (rule countWords_pos [of "[]"]) simp_all

lemma indexKeywords_ki:
  "distinct (map fst kws) \<Longrightarrow>
   map_of (fst (indexKeywords cid kws (ki, df))) w =
     (if map_of kws w \<noteq> None then Some (lookupList ki w @ [cid]) else map_of ki w)"
proof (induction kws arbitrary: ki df)
  case Nil
  then show ?case by simp
next
  case (Cons kw kws)
  obtain k f where kw: "kw = (k, f)" by (cases kw)
  have notin: "map_of kws k = None" using Cons.prems kw by (simp add: map_of_eq_None_iff)
  show ?case using Cons.prems notin
    by (auto simp: kw Cons.IH update_conv' lookupList_def)
qed

lemma indexKeywords_df:
  "distinct (map fst kws) \<Longrightarrow>
   map_of (snd (indexKeywords cid kws (ki, df))) w =
     (if map_of kws w \<noteq> None then Some (lookupNat df w + 1) else map_of df w)"
proof (induction kws arbitrary: ki df)
  case Nil
  then show ?case by simp
next
  case (Cons kw kws)
  obtain k f where kw: "kw = (k, f)" by (cases kw)
  have notin: "map_of kws k = None" using Cons.prems kw by (simp add: map_of_eq_None_iff)
  show ?case using Cons.prems notin
    by (auto simp: kw Cons.IH update_conv' lookupNat_def)
qed

lemma buildKeywordIndex_loop_ki:
  "keywords_ok cs \<Longrightarrow>
   map_of (fst (buildKeywordIndex_loop cs (ki, df))) w =
     (if postings cs w = [] then map_of ki w else Some (lookupList ki w @ postings cs w))"
proof (induction cs arbitrary: ki df)
  case Nil
  then show ?case by (simp add: postings_def)
next
  case (Cons c cs)
  obtain ki' df' where step: "indexKeywords (chunk_id c) (chunk_keywords c) (ki, df) = (ki', df')"
    by (cases "indexKeywords (chunk_id c) (chunk_keywords c) (ki, df)")
  have d: "distinct (map fst (chunk_keywords c))" and ok: "keywords_ok cs"
    using Cons.prems by (simp_all add: keywords_ok_def)
  have ki': "map_of ki' w =
     (if hasKeyword c w then Some (lookupList ki w @ [chunk_id c]) else map_of ki w)"
    using indexKeywords_ki [OF d, of "chunk_id c" ki df w] step by (simp add: hasKeyword_def)
  show ?case
    using Cons.IH [OF ok, of ki' df'] ki'
    by (auto simp: step postings_def lookupList_def)
qed

lemma buildKeywordIndex_loop_df:
  "keywords_ok cs \<Longrightarrow>
   map_of (snd (buildKeywordIndex_loop cs (ki, df))) w =
     (if postings cs w = [] then map_of df w else Some (lookupNat df w + length (postings cs w)))"
proof (induction cs arbitrary: ki df)
  case Nil
  then show ?case by (simp add: postings_def)
next
  case (Cons c cs)
  obtain ki' df' where step: "indexKeywords (chunk_id c) (chunk_keywords c) (ki, df) = (ki', df')"
    by (cases "indexKeywords (chunk_id c) (chunk_keywords c) (ki, df)")
  have d: "distinct (map fst (chunk_keywords c))" and ok: "keywords_ok cs"
    using Cons.prems by (simp_all add: keywords_ok_def)
  have df': "map_of df' w =
     (if hasKeyword c w then Some (lookupNat df w + 1) else map_of df w)"
    using indexKeywords_df [OF d, of "chunk_id c" ki df w] step by (simp add: hasKeyword_def)
  show ?case
    using Cons.IH [OF ok, of ki' df'] df'
    by (auto simp: step postings_def lookupNat_def)
qed

lemma keywords_ok_createChunks: "keywords_ok (createChunks content)"
  unfolding createChunks_def
  by (rule createChunks_loop_rule [where I = "\<lambda>start cs. keywords_ok cs"])
     (simp_all add: keywords_ok_def pushChunk_def Let_def extractKeywords_distinct)

lemma isIndexed_s1: "isIndexed s1"
  by (simp add: s1_def indexConversation_def m1_def buildKeywordIndex_def Let_def)

section \<open>The state after a rebuild\<close>

lemma s1_eq:
  "s1 = \<lparr>chunks =
           [\<lparr>chunk_id = 0, chunk_text = ''[USER]: rust ownership borrowck'', chunk_start = 0,
             chunk_end = 31,
             chunk_keywords = [(''user'', 1), (''rust'', 1), (''ownership'', 1), (''borrowck'', 1)]\<rparr>],
          keywordIndex = [(''user'', [0]), (''rust'', [0]), (''ownership'', [0]), (''borrowck'', [0])],
          documentFrequency = [(''user'', 1), (''rust'', 1), (''ownership'', 1), (''borrowck'', 1)],
          isIndexed = True\<rparr>"
  by code_simp

lemma indexConversation_rebuild:
  fixes s :: indexer and ms :: "message list"
  assumes "ms \<noteq> []"
  defines "cs \<equiv> createChunks (conversationText ms)"
  shows "indexConversation s (Some ms) =
     (length cs, s\<lparr>chunks := cs, keywordIndex := fst (buildKeywordIndex_loop cs ([], [])),
                    documentFrequency := snd (buildKeywordIndex_loop cs ([], [])),
                    isIndexed := True\<rparr>)"
  using assms by (simp add: indexConversation_def buildKeywordIndex_def Let_def)

lemma keywordIndex_rebuild:
  "keywords_ok cs \<Longrightarrow> lookupList (fst (buildKeywordIndex_loop cs ([], []))) w = postings cs w"
  by (simp add: lookupList_def buildKeywordIndex_loop_ki)

lemma documentFrequency_rebuild:
  "keywords_ok cs \<Longrightarrow> lookupNat (snd (buildKeywordIndex_loop cs ([], []))) w = length (postings cs w)"
  by (simp add: lookupNat_def buildKeywordIndex_loop_df)

lemma ids_ok_distinct: "ids_ok cs \<Longrightarrow> distinct cs"
  by (metis distinct_map distinct_upt ids_ok_def)

lemma postings_sorted: "ids_ok cs \<Longrightarrow> sorted_wrt (<) (postings cs w)"
proof -
  assume "ids_ok cs"
  then have "sorted_wrt (<) (map chunk_id cs)" by (simp add: ids_ok_def)
  then have "sorted_wrt (\<lambda>a b. chunk_id a < chunk_id b) cs" by (simp add: sorted_wrt_map)
  then have "sorted_wrt (\<lambda>a b. chunk_id a < chunk_id b) (filter (\<lambda>c. hasKeyword c w) cs)"
    by (rule sorted_wrt_filter)
  then show ?thesis by (simp add: postings_def sorted_wrt_map)
qed

lemma postings_card: "ids_ok cs \<Longrightarrow> length (postings cs w) = card {c \<in> set cs. hasKeyword c w}"
proof -
  assume "ids_ok cs"
  then have "distinct (filter (\<lambda>c. hasKeyword c w) cs)" by (simp add: ids_ok_distinct)
  then have "card (set (filter (\<lambda>c. hasKeyword c w) cs)) = length (filter (\<lambda>c. hasKeyword c w) cs)"
    by (rule distinct_card)
  then show ?thesis by (simp add: postings_def)
qed

section \<open>The results of search and the assembly loop\<close>

lemma ids_ok_bound: "ids_ok cs \<Longrightarrow> c \<in> set cs \<Longrightarrow> chunk_id c < length cs"
proof -
  assume a: "ids_ok cs" "c \<in> set cs"
  from a(1) have eq: "map chunk_id cs = [0..<length cs]" by (simp add: ids_ok_def)
  from a(2) have "chunk_id c \<in> set (map chunk_id cs)" by simp
  then have "chunk_id c \<in> set [0..<length cs]" unfolding eq .
  then show ?thesis by simp
qed

lemma ids_ok_nth: "ids_ok cs \<Longrightarrow> c \<in> set cs \<Longrightarrow> nth_opt cs (chunk_id c) = Some c"
proof -
  assume a: "ids_ok cs" "c \<in> set cs"
  then obtain i where i: "i < length cs" "cs ! i = c" by (auto simp: in_set_conv_nth)
  have "map chunk_id cs ! i = [0..<length cs] ! i" using a(1) by (simp add: ids_ok_def)
  then have "chunk_id c = i" using i by simp
  then show ?thesis using i by (simp add: nth_opt_def)
qed

lemma scoresLoop_keys:
  "fst ` set (scoresLoop s qk cs scores) \<subseteq> fst ` set scores \<union> chunk_id ` set cs"
proof (induction cs arbitrary: scores)
  case Nil
  then show ?case by simp
next
  case (Cons c cs)
  define sc where "sc = (if chunkScore s qk c > 0
      then AList.update (chunk_id c) (chunkScore s qk c) scores else scores)"
  have "set (map fst (AList.update (chunk_id c) v scores)) \<subseteq> insert (chunk_id c) (set (map fst scores))" for v
    unfolding update_keys by auto
  then have A: "fst ` set sc \<subseteq> insert (chunk_id c) (fst ` set scores)"
    by (auto simp: sc_def)
  have B: "fst ` set (scoresLoop s qk cs sc) \<subseteq> fst ` set sc \<union> chunk_id ` set cs"
    by (rule Cons.IH)
  have eq: "scoresLoop s qk (c # cs) scores = scoresLoop s qk cs sc"
    by (simp add: sc_def Let_def)
  have C: "chunk_id ` set (c # cs) = insert (chunk_id c) (chunk_id ` set cs)" by simp
  show ?case unfolding eq C using A B by blast
qed

lemma set_sortByStart: "set (sortByStart xs) = set xs"
proof -
  have "Some ` set (List.map_filter (\<lambda>x. x) xs) = {x \<in> set xs. x \<noteq> None}"
    by (induction xs) (auto split: option.splits)
  then show ?thesis by (auto simp: sortByStart_def)
qed

lemma length_sortByStart: "length (sortByStart xs) = length xs"
proof -
  have "length (List.map_filter (\<lambda>x. x) xs) + length (filter (\<lambda>x. x = None) xs) = length xs"
    by (induction xs) (auto split: option.splits)
  then show ?thesis by (simp add: sortByStart_def)
qed

lemma search_subset:
  assumes "ids_ok (chunks s)"
  shows "set (search s q topK) \<subseteq> Some ` set (chunks s)"
proof (cases "\<not> isIndexed s \<or> length (chunks s) = 0")
  case True
  then show ?thesis by (auto simp: search_def)
next
  case False
  show ?thesis
  proof (cases "length (extractKeywords q) = 0")
    case True
    have "set (drop n (chunks s)) \<subseteq> set (chunks s)" for n by (rule set_drop_subset)
    then show ?thesis using False True by (auto simp: search_def slice_from_def)
  next
    case scored: False
    let ?scores = "scoresLoop s (extractKeywords q) (chunks s) []"
    let ?top = "slice_to (sort_key (\<lambda>(cid, score). - score) ?scores) topK"
    have "set ?top \<subseteq> set ?scores"
      unfolding slice_to_def using set_take_subset [of _ "sort_key (\<lambda>(cid, score). - score) ?scores"]
      by simp
    then have keys: "fst ` set ?top \<subseteq> chunk_id ` set (chunks s)"
      using scoresLoop_keys [of s "extractKeywords q" "chunks s" "[]"] by auto
    have "set (map (\<lambda>(cid, score). nth_opt (chunks s) cid) ?top) \<subseteq> Some ` set (chunks s)"
    proof
      fix x assume "x \<in> set (map (\<lambda>(cid, score). nth_opt (chunks s) cid) ?top)"
      then obtain cid sc where e: "(cid, sc) \<in> set ?top" "x = nth_opt (chunks s) cid" by auto
      then have "cid \<in> chunk_id ` set (chunks s)" using keys by force
      then obtain c where c: "c \<in> set (chunks s)" "cid = chunk_id c" by auto
      then show "x \<in> Some ` set (chunks s)" using e ids_ok_nth [OF assms c(1)] by simp
    qed
    then show ?thesis using False scored
      by (simp add: search_def Let_def set_sortByStart)
  qed
qed

lemma assemble_returns: "None \<notin> set xs \<Longrightarrow> \<exists>r. assemble ctx xs = Inr r"
  by (induction ctx xs rule: assemble.induct) (auto simp: Let_def)

lemma assemble_bound:
  "assemble ctx xs = Inr r \<Longrightarrow> length ctx \<le> MAX_CONTEXT_CHARS + 2 \<Longrightarrow> length r \<le> MAX_CONTEXT_CHARS + 2"
proof (induction ctx xs rule: assemble.induct)
  case (1 ctx)
  then show ?case by simp
next
  case (2 ctx rest)
  then show ?case by simp
next
  case (3 ctx c rest)
  show ?case
  proof (cases "length ctx + length (chunk_text c) > MAX_CONTEXT_CHARS")
    case True
    have "length (substring (chunk_text c) 0 n) \<le> n" for n
      using length_substring_le [of 0 n "chunk_text c"] by simp
    from this [of "nat (int MAX_CONTEXT_CHARS - int (length ctx) - 10)"]
    show ?thesis using True "3.prems"
      by (auto simp: Let_def MAX_CONTEXT_CHARS_def split: if_splits)
  next
    case False
    then show ?thesis using "3.prems" "3.IH" [OF False]
      by (auto simp: MAX_CONTEXT_CHARS_def split: if_splits)
  qed
qed

lemma getContextForQuery_bound:
  "getContextForQuery s q = Inr r \<Longrightarrow> length r \<le> MAX_CONTEXT_CHARS + 2"
  using assemble_bound [of "[]" "search s q TOP_K" r]
  by (auto simp: getContextForQuery_def Let_def split: if_splits)

lemma getContextForQuery_returns:
  "ids_ok (chunks s) \<Longrightarrow> \<exists>r. getContextForQuery s q = Inr r"
  using search_subset [of s q TOP_K] assemble_returns [of "search s q TOP_K" "[]"]
  by (auto simp: getContextForQuery_def Let_def)

section \<open>Unfolding the chunking loop\<close>

text \<open>The lemmas that evaluate \<open>createChunks\<close> on a long transcript window by window:
  a transcript without boundary markers, one step of the loop, and a tail of white space.\<close>

lemma lastIndexOf_scan_absent:
  "bp \<noteq> [] \<Longrightarrow> hd bp \<notin> set cs \<Longrightarrow> lastIndexOf_scan cs bp i fromIndex best = best"
proof (induction cs arbitrary: i)
  case Nil
  then show ?case by simp
next
  case (Cons c cs)
  then obtain p ps where bp: "bp = p # ps" by (cases bp) auto
  then have "c \<noteq> p" using Cons.prems by auto
  then show ?case using Cons bp by simp
qed

lemma chunkEnd_no_breaks:
  assumes "nl \<notin> set content" and "CHR ''.'' \<notin> set content"
  shows "chunkEnd content start = min (start + CHUNK_SIZE) (length content)"
proof -
  have "lastIndexOf content bp e = - 1" if "bp \<in> set breakPoints" for bp e
    unfolding lastIndexOf_def
    by (rule lastIndexOf_scan_absent) (use that assms in \<open>auto simp: breakPoints_def\<close>)
  then have "bestBreakLoop content e ss breakPoints (- 1) = - 1" for e ss
    by (simp add: breakPoints_def)
  then show ?thesis by (simp add: chunkEnd_def Let_def)
qed

lemma createChunks_loop_step:
  assumes "start < length content" and "iterations < maxIterations"
    and "max (start + 1) (chunkEnd content start - CHUNK_OVERLAP) + 30 < length content"
  shows "createChunks_loop content start iterations cs =
     createChunks_loop content (max (start + 1) (chunkEnd content start - CHUNK_OVERLAP))
       (iterations + 1) (pushChunk content start (chunkEnd content start) cs)"
  using assms by (subst createChunks_loop.simps) (simp add: Let_def)

lemma trim_all_ws: "list_all is_ws s \<Longrightarrow> trim s = []"
proof -
  assume "list_all is_ws s"
  then have e: "dropWhile is_ws s = []" by (simp add: list_all_iff)
  show ?thesis unfolding trim_def e by simp
qed

lemma trim_ws_append: "list_all is_ws w \<Longrightarrow> trim (w @ s) = trim s"
proof -
  assume "list_all is_ws w"
  then have "dropWhile is_ws (w @ s) = dropWhile is_ws s"
    by (intro dropWhile_append2) (simp add: list_all_iff)
  then show ?thesis by (simp add: trim_def)
qed

lemma trim_append_ws: "list_all is_ws w \<Longrightarrow> trim (s @ w) = trim s"
proof (cases "list_all is_ws s")
  case True
  assume "list_all is_ws w"
  then show ?thesis using True by (simp add: trim_all_ws)
next
  case False
  assume w: "list_all is_ws w"
  from False obtain x where x: "x \<in> set s" "\<not> is_ws x" by (auto simp: list_all_iff)
  then have d: "dropWhile is_ws (s @ w) = dropWhile is_ws s @ w"
    by (rule dropWhile_append1)
  have "dropWhile is_ws (rev w @ t) = dropWhile is_ws t" for t
    by (rule dropWhile_append2) (use w in \<open>simp add: list_all_iff\<close>)
  then show ?thesis by (simp add: trim_def d)
qed

lemma trim_id: "s \<noteq> [] \<Longrightarrow> \<not> is_ws (hd s) \<Longrightarrow> \<not> is_ws (last s) \<Longrightarrow> trim s = s"
proof -
  assume a: "s \<noteq> []" "\<not> is_ws (hd s)" "\<not> is_ws (last s)"
  then have "dropWhile is_ws s = s" by (cases s) auto
  moreover have "dropWhile is_ws (rev s) = rev s" using a by (cases "rev s") (auto simp: hd_rev)
  ultimately show ?thesis by (simp add: trim_def)
qed

lemma set_substring: "a \<le> b \<Longrightarrow> set (substring s a b) \<subseteq> set (drop a s)"
proof -
  assume "a \<le> b"
  then have "substring s a b = take (min b (length s) - min a (length s)) (drop (min a (length s)) s)"
    by (simp add: substring_def Let_def min_def max_def)
  moreover have "drop (min a (length s)) s = drop a s" by (simp add: min_def)
  ultimately show ?thesis by (metis set_take_subset)
qed

lemma createChunks_loop_ws_tail:
  assumes "list_all is_ws (drop start content)"
  shows "createChunks_loop content start iterations cs = cs"
proof (rule createChunks_loop_rule
    [where I = "\<lambda>start' cs'. cs' = cs \<and> list_all is_ws (drop start' content)"])
  show "cs = cs \<and> list_all is_ws (drop start content)" using assms by simp
next
  fix st cs'
  assume inv: "cs' = cs \<and> list_all is_ws (drop st content)" and lt: "st < length content"
  let ?e = "chunkEnd content st"
  have "set (substring content st ?e) \<subseteq> set (drop st content)"
    by (rule set_substring) (use chunkEnd_gt [OF lt] in simp)
  then have "list_all is_ws (substring content st ?e)" using inv by (auto simp: list_all_iff)
  then have "pushChunk content st ?e cs' = cs'" by (simp add: pushChunk_def trim_all_ws)
  moreover have "list_all is_ws (drop (max (st + 1) (?e - CHUNK_OVERLAP)) content)"
  proof -
    have "set (drop (max (st + 1) (?e - CHUNK_OVERLAP)) content) \<subseteq> set (drop st content)"
      by (rule set_drop_subset_set_drop) simp
    then show ?thesis using inv by (auto simp: list_all_iff)
  qed
  ultimately show "pushChunk content st ?e cs' = cs \<and>
      list_all is_ws (drop (max (st + 1) (?e - CHUNK_OVERLAP)) content)"
    using inv by simp
qed simp

section \<open>The example conversations, evaluated\<close>

lemma is_ws_sp: "is_ws sp" by (simp add: is_ws_def sp_def)

lemma all_ws_replicate: "list_all is_ws (replicate n sp)"
  by (simp add: list_all_iff is_ws_sp)

lemma conversationText_m2: "conversationText m2 = t2"
  by (simp add: conversationText_def m2_def roleLabel_def t2_def)

lemma length_t2: "length t2 = 2300" by (simp add: t2_def)

lemma chunkEnd_t2: "chunkEnd t2 start = min (start + 800) 2300"
proof -
  have "nl \<notin> set t2" "CHR ''.'' \<notin> set t2" by (simp_all add: t2_def nl_def sp_def)
  then show ?thesis by (simp add: chunkEnd_no_breaks length_t2 CHUNK_SIZE_def)
qed

lemma kw_a: "extractKeywords ''[USER]: alpha beta gamma delta epsilon'' = chunk_keywords c2a"
  by code_simp

lemma kw_b: "extractKeywords ''omega omega omega omega omega omega'' = chunk_keywords c2b"
  by code_simp

lemma trim_a: "trim ''[USER]: alpha beta gamma delta epsilon'' = ''[USER]: alpha beta gamma delta epsilon''"
  by code_simp

lemma trim_b: "trim ''omega omega omega omega omega omega'' =  ''omega omega omega omega omega omega''"
  by code_simp

lemma push0: "pushChunk t2 0 800 [] = [c2a]"
proof -
  have "substring t2 0 800 = ''[USER]: alpha beta gamma delta epsilon'' @ replicate 762 sp"
    by (simp add: substring_def t2_def)
  then have "trim (substring t2 0 800) = ''[USER]: alpha beta gamma delta epsilon''"
    by (simp only: trim_append_ws [OF all_ws_replicate] trim_a)
  then show ?thesis by (simp add: pushChunk_def kw_a c2a_def)
qed

lemma push1: "pushChunk t2 650 1450 cs = cs"
proof -
  have "substring t2 650 1450 = replicate 800 sp"
    by (simp add: substring_def t2_def)
  then have "trim (substring t2 650 1450) = []"
    by (simp only: trim_all_ws [OF all_ws_replicate])
  then show ?thesis by (simp add: pushChunk_def)
qed

lemma push2: "pushChunk t2 1300 2100 [c2a] = [c2a, c2b]"
proof -
  have "substring t2 1300 2100 = replicate 150 sp @ ''omega omega omega omega omega omega'' @ replicate 615 sp"
    by (simp add: substring_def t2_def)
  then have "trim (substring t2 1300 2100) = ''omega omega omega omega omega omega''"
    using trim_ws_append [OF all_ws_replicate, of 150 "''omega omega omega omega omega omega'' @ replicate 615 sp"]
      trim_append_ws [OF all_ws_replicate, of "''omega omega omega omega omega omega''" 615] trim_b
    by simp
  then show ?thesis by (simp add: pushChunk_def kw_b c2b_def)
qed

lemma tail2: "list_all is_ws (drop 1950 t2)"
proof -
  have "drop 1950 t2 = replicate 350 sp" by (simp add: t2_def)
  then show ?thesis by (simp only: all_ws_replicate)
qed

lemma createChunks_t2: "createChunks t2 = [c2a, c2b]"
proof -
  have "createChunks t2 = createChunks_loop t2 650 (Suc 0) [c2a]"
    unfolding createChunks_def
    by (subst createChunks_loop_step)
       (simp_all add: length_t2 chunkEnd_t2 maxIterations_def CHUNK_OVERLAP_def push0)
  also have "\<dots> = createChunks_loop t2 1300 (Suc (Suc 0)) [c2a]"
    by (subst createChunks_loop_step)
       (simp_all add: length_t2 chunkEnd_t2 maxIterations_def CHUNK_OVERLAP_def push1)
  also have "\<dots> = createChunks_loop t2 1950 (Suc (Suc (Suc 0))) [c2a, c2b]"
    by (subst createChunks_loop_step)
       (simp_all add: length_t2 chunkEnd_t2 maxIterations_def CHUNK_OVERLAP_def push2)
  also have "\<dots> = [c2a, c2b]"
    by (rule createChunks_loop_ws_tail [OF tail2])
  finally show ?thesis .
qed

section \<open>The states the engine can reach\<close>

lemma extractKeywords_pos_all: "list_all (\<lambda>(w, n). 0 < n) (extractKeywords txt)"
proof -
  have "0 < n" if "(w, n) \<in> set (extractKeywords txt)" for w n
  proof -
    have "map_of (extractKeywords txt) w = Some n"
      using that extractKeywords_distinct [of "txt"] by simp
    then show ?thesis by (rule extractKeywords_pos)
  qed
  then show ?thesis by (auto simp: list_all_iff)
qed

lemma kwpos_createChunks: "kwpos (createChunks content)"
  unfolding createChunks_def
  by (rule createChunks_loop_rule [where I = "\<lambda>start cs. kwpos cs"])
     (simp_all add: kwpos_def pushChunk_def Let_def extractKeywords_pos_all)

lemma state_ok_init: "state_ok init"
  by (simp add: state_ok_def init_def ids_ok_def texts_ok_def keywords_ok_def kwpos_def
      chunks_ordered_def lookupNat_def lookupList_def postings_def)

lemma state_ok_clear: "state_ok (clear s)"
  by (simp add: state_ok_def clear_def ids_ok_def texts_ok_def keywords_ok_def kwpos_def
      chunks_ordered_def lookupNat_def lookupList_def postings_def)

lemma state_ok_rebuild:
  assumes "ms \<noteq> []"
  shows "state_ok (snd (indexConversation s (Some ms)))"
proof -
  let ?cs = "createChunks (conversationText ms)"
  have kw: "keywords_ok ?cs" by (rule keywords_ok_createChunks)
  show ?thesis
    by (simp add: indexConversation_rebuild [OF assms] state_ok_def ids_ok_createChunks
        texts_ok_createChunks kw kwpos_createChunks chunks_ordered_createChunks
        keywordIndex_rebuild [OF kw] documentFrequency_rebuild [OF kw])
qed

lemma state_ok_index: "state_ok s \<Longrightarrow> state_ok (snd (indexConversation s messages))"
proof (cases messages)
  case None
  assume "state_ok s"
  then show ?thesis using None by (simp add: indexConversation_def)
next
  case (Some ms)
  assume ok: "state_ok s"
  show ?thesis
  proof (cases "ms = []")
    case True
    then show ?thesis using ok Some by (simp add: indexConversation_def)
  next
    case False
    then show ?thesis using Some by (simp add: state_ok_rebuild)
  qed
qed

lemma reachable_state_ok: "reachable s \<Longrightarrow> state_ok s"
  by (induction rule: reachable.induct) (simp_all add: state_ok_init state_ok_index state_ok_clear)

lemma reachable_s1: "reachable s1"
  unfolding s1_def by (rule reachable_index [OF reachable_init])

lemma search_defined: "ids_ok (chunks s) \<Longrightarrow> None \<notin> set (search s q topK)"
  using search_subset [of s q topK] by auto

lemma extractKeywords_the: "extractKeywords ''the'' = []"
  by code_simp

lemma chunks_s1: "chunks s1 = [c1]"
  by (simp add: s1_eq c1_def)

lemma search_s1_the: "search s1 ''the'' k = map Some (slice_from [c1] (- k))"
  by (simp add: search_def isIndexed_s1 extractKeywords_the chunks_s1)

lemma getContext_s1_the: "getContextForQuery s1 ''the'' = Inr ''[USER]: rust ownership borrowck''"
  by (simp add: getContextForQuery_def search_s1_the TOP_K_def slice_from_def relativeIndex_def
      c1_def MAX_CONTEXT_CHARS_def)

lemma search_no_keywords:
  assumes "isIndexed s" and "chunks s \<noteq> []" and "extractKeywords q = []" and "1 \<le> topK"
  shows "search s q topK = map Some (drop (length (chunks s) - nat topK) (chunks s))"
proof -
  have "relativeIndex (length (chunks s)) (- topK) = length (chunks s) - nat topK"
    using assms(4) by (auto simp: relativeIndex_def)
  then show ?thesis using assms by (simp add: search_def slice_from_def)
qed

section \<open>Counting chunks\<close>

lemma m2_nonempty: "m2 \<noteq> []" by (simp add: m2_def)

lemma chunks_s2: "chunks s2 = [c2a, c2b]"
  by (simp add: s2_def indexConversation_rebuild [OF m2_nonempty] conversationText_m2 createChunks_t2)

lemma isIndexed_s2: "isIndexed s2"
  by (simp add: s2_def indexConversation_rebuild [OF m2_nonempty])

lemma reachable_s2: "reachable s2"
  unfolding s2_def by (rule reachable_index [OF reachable_init])

lemma chunks_ordered_nth:
  "chunks_ordered cs \<Longrightarrow> Suc i < length cs \<Longrightarrow>
     chunk_start (cs ! i) < chunk_start (cs ! Suc i)
     \<and> chunk_end (cs ! i) \<le> chunk_start (cs ! Suc i) + CHUNK_OVERLAP"
  unfolding chunks_ordered_def by (rule sorted_wrt_nth_less) simp_all

lemma length_pushChunk: "length cs \<le> length (pushChunk content start e cs)"
  by (simp add: pushChunk_def Let_def)

lemma length_createChunks_loop: "length cs \<le> length (createChunks_loop content start iterations cs)"
proof (rule createChunks_loop_rule [where I = "\<lambda>start cs'. length cs \<le> length cs'"])
  fix st and cs' :: "chunk list"
  assume "length cs \<le> length cs'"
  then show "length cs \<le> length (pushChunk content st (chunkEnd content st) cs')"
    using length_pushChunk [of cs' content st "chunkEnd content st"] by simp
qed simp_all

lemma createChunks_first_window:
  assumes "30 < length (trim (substring content 0 (chunkEnd content 0)))"
  shows "createChunks content \<noteq> []"
proof -
  have ne: "content \<noteq> []"
  proof
    assume "content = []"
    then have "substring content 0 (chunkEnd content 0) = []" by (simp add: substring_def)
    then show False using assms by (simp add: trim_def)
  qed
  let ?cs = "pushChunk content 0 (chunkEnd content 0) []"
  have one: "length ?cs = 1" using assms by (simp add: pushChunk_def Let_def)
  have "1 \<le> length (createChunks content)"
  proof (cases "max 1 (chunkEnd content 0 - CHUNK_OVERLAP) + 30 \<ge> length content")
    case True
    then show ?thesis using ne one unfolding createChunks_def
      by (subst createChunks_loop.simps) (simp add: Let_def maxIterations_def)
  next
    case False
    have "createChunks content =
        createChunks_loop content (max (0 + 1) (chunkEnd content 0 - CHUNK_OVERLAP)) (0 + 1) ?cs"
      unfolding createChunks_def
      by (rule createChunks_loop_step) (use ne False in \<open>simp_all add: maxIterations_def\<close>)
    then show ?thesis
      using length_createChunks_loop [of ?cs content "max (0 + 1) (chunkEnd content 0 - CHUNK_OVERLAP)" "0 + 1"] one
      by simp
  qed
  then show ?thesis by auto
qed

lemma chunkEnd_short: "length content \<le> CHUNK_SIZE \<Longrightarrow> chunkEnd content 0 = length content"
  by (simp add: chunkEnd_def Let_def)

lemma conversationText_m3: "conversationText m3 = t3"
  by (simp add: conversationText_def m3_def roleLabel_def t3_def)

lemma length_t3: "length t3 = 1200" by (simp add: t3_def)

lemma chunkEnd_t3: "chunkEnd t3 start = min (start + 800) 1200"
proof -
  have "nl \<notin> set t3" "CHR ''.'' \<notin> set t3" by (simp_all add: t3_def nl_def sp_def)
  then show ?thesis by (simp add: chunkEnd_no_breaks length_t3 CHUNK_SIZE_def)
qed

lemma trim_label: "trim ''[USER]: '' = ''[USER]:''"
  by code_simp

lemma trim_x: "trim ''x'' = ''x''"
  by code_simp

lemma push3a: "pushChunk t3 0 800 cs = cs"
proof -
  have "substring t3 0 800 = ''[USER]: '' @ replicate 792 sp"
    by (simp add: substring_def t3_def)
  then have "trim (substring t3 0 800) = ''[USER]:''"
    by (simp only: trim_append_ws [OF all_ws_replicate] trim_label)
  then show ?thesis by (simp add: pushChunk_def)
qed

lemma push3b: "pushChunk t3 650 1200 cs = cs"
proof -
  have "substring t3 650 1200 = replicate 250 sp @ ''x'' @ replicate 299 sp"
    by (simp add: substring_def t3_def)
  then have "trim (substring t3 650 1200) = ''x''"
    using trim_ws_append [OF all_ws_replicate, of 250 "''x'' @ replicate 299 sp"]
      trim_append_ws [OF all_ws_replicate, of "''x''" 299] trim_x
    by simp
  then show ?thesis by (simp add: pushChunk_def)
qed

lemma tail3: "list_all is_ws (drop 1050 t3)"
proof -
  have "drop 1050 t3 = replicate 150 sp" by (simp add: t3_def)
  then show ?thesis by (simp only: all_ws_replicate)
qed

lemma createChunks_t3: "createChunks t3 = []"
proof -
  have "createChunks t3 = createChunks_loop t3 650 (Suc 0) []"
    unfolding createChunks_def
    by (subst createChunks_loop_step)
       (simp_all add: length_t3 chunkEnd_t3 maxIterations_def CHUNK_OVERLAP_def push3a)
  also have "\<dots> = createChunks_loop t3 1050 (Suc (Suc 0)) []"
    by (subst createChunks_loop_step)
       (simp_all add: length_t3 chunkEnd_t3 maxIterations_def CHUNK_OVERLAP_def push3b)
  also have "\<dots> = []"
    by (rule createChunks_loop_ws_tail [OF tail3])
  finally show ?thesis .
qed

lemma length_trim_t3: "length (trim t3) = 901"
proof -
  have "t3 = (''[USER]: '' @ replicate 892 sp @ ''x'') @ replicate 299 sp" by (simp add: t3_def)
  then have "trim t3 = trim (''[USER]: '' @ replicate 892 sp @ ''x'')"
    using trim_append_ws [OF all_ws_replicate, of "''[USER]: '' @ replicate 892 sp @ ''x''" 299]
    by simp
  also have "\<dots> = ''[USER]: '' @ replicate 892 sp @ ''x''"
    by (rule trim_id) (simp_all add: is_ws_def)
  finally show ?thesis by simp
qed

section \<open>Scores\<close>

lemma scoreLoop_miss:
  "\<not> list_ex (\<lambda>(w, f). hasKeyword c w) qk \<Longrightarrow> scoreLoop s c qk acc = acc"
  by (induction qk arbitrary: acc) (auto simp: hasKeyword_def)

lemma scoreLoop_hit:
  assumes "\<And>w f tf. (w, f) \<in> set qk \<Longrightarrow> map_of (chunk_keywords c) w = Some tf \<Longrightarrow>
     0 < real tf * ln (real (length (chunks s))
           / real (case map_of (documentFrequency s) w of
                     None \<Rightarrow> 1 | Some d \<Rightarrow> if d = 0 then 1 else d)) * real f"
  shows "acc \<le> scoreLoop s c qk acc
       \<and> (list_ex (\<lambda>(w, f). hasKeyword c w) qk \<longrightarrow> acc < scoreLoop s c qk acc)"
  using assms
proof (induction qk arbitrary: acc)
  case Nil
  then show ?case by simp
next
  case (Cons a qk)
  obtain w f where a: "a = (w, f)" by (cases a)
  have rest: "\<And>w f tf. (w, f) \<in> set qk \<Longrightarrow> map_of (chunk_keywords c) w = Some tf \<Longrightarrow>
     0 < real tf * ln (real (length (chunks s))
           / real (case map_of (documentFrequency s) w of
                     None \<Rightarrow> 1 | Some d \<Rightarrow> if d = 0 then 1 else d)) * real f"
    using Cons.prems by simp
  show ?case
  proof (cases "map_of (chunk_keywords c) w")
    case None
    then show ?thesis using Cons.IH [OF rest, of acc] by (simp add: a hasKeyword_def)
  next
    case (Some tf)
    let ?t = "real tf * ln (real (length (chunks s))
           / real (case map_of (documentFrequency s) w of
                     None \<Rightarrow> 1 | Some d \<Rightarrow> if d = 0 then 1 else d)) * real f"
    have pos: "0 < ?t" using Cons.prems [of w f tf] Some by (simp add: a)
    have "acc + ?t \<le> scoreLoop s c qk (acc + ?t)" using Cons.IH [OF rest, of "acc + ?t"] by simp
    then have "acc < scoreLoop s c qk (acc + ?t)" using pos by linarith
    then show ?thesis using Some by (simp add: a Let_def)
  qed
qed

lemma filter_singleton:
  "distinct xs \<Longrightarrow> x \<in> set xs \<Longrightarrow> (\<And>y. y \<in> set xs \<Longrightarrow> P y = (y = x)) \<Longrightarrow> filter P xs = [x]"
proof (induction xs)
  case Nil
  then show ?case by simp
next
  case (Cons a xs)
  show ?case
  proof (cases "a = x")
    case True
    have "filter P xs = []" using Cons.prems True by (auto simp: filter_empty_conv)
    then show ?thesis using True Cons.prems(3) [of a] by simp
  next
    case False
    then have "filter P xs = [x]" using Cons by auto
    then show ?thesis using False Cons.prems(3) [of a] by simp
  qed
qed

lemma scoresLoop_filter:
  "scoresLoop s qk cs scores = scoresLoop s qk (filter (\<lambda>c. 0 < chunkScore s qk c) cs) scores"
  by (induction cs arbitrary: scores) (simp_all add: Let_def)

lemma search_scored_subset:
  assumes "ids_ok (chunks s)" and "extractKeywords q \<noteq> []"
  shows "set (search s q topK)
           \<subseteq> Some ` {c \<in> set (chunks s). 0 < chunkScore s (extractKeywords q) c}"
proof (cases "\<not> isIndexed s \<or> length (chunks s) = 0")
  case True
  then show ?thesis by (auto simp: search_def)
next
  case False
  let ?qk = "extractKeywords q"
  let ?scores = "scoresLoop s ?qk (chunks s) []"
  let ?top = "slice_to (sort_key (\<lambda>(cid, score). - score) ?scores) topK"
  have "set ?top \<subseteq> set ?scores"
    unfolding slice_to_def using set_take_subset [of _ "sort_key (\<lambda>(cid, score). - score) ?scores"]
    by simp
  moreover have "fst ` set ?scores \<subseteq> chunk_id ` set (filter (\<lambda>c. 0 < chunkScore s ?qk c) (chunks s))"
    using scoresLoop_keys [of s ?qk "filter (\<lambda>c. 0 < chunkScore s ?qk c) (chunks s)" "[]"]
      scoresLoop_filter [of s ?qk "chunks s" "[]"] by simp
  ultimately have keys: "fst ` set ?top \<subseteq> chunk_id ` {c \<in> set (chunks s). 0 < chunkScore s ?qk c}"
    by auto
  have "set (map (\<lambda>(cid, score). nth_opt (chunks s) cid) ?top)
          \<subseteq> Some ` {c \<in> set (chunks s). 0 < chunkScore s ?qk c}"
  proof
    fix x assume "x \<in> set (map (\<lambda>(cid, score). nth_opt (chunks s) cid) ?top)"
    then obtain cid sc where e: "(cid, sc) \<in> set ?top" "x = nth_opt (chunks s) cid" by auto
    then have "cid \<in> chunk_id ` {c \<in> set (chunks s). 0 < chunkScore s ?qk c}" using keys by force
    then obtain c where c: "c \<in> set (chunks s)" "0 < chunkScore s ?qk c" "cid = chunk_id c" by auto
    then show "x \<in> Some ` {c \<in> set (chunks s). 0 < chunkScore s ?qk c}"
      using e ids_ok_nth [OF assms(1) c(1)] by simp
  qed
  then show ?thesis using False assms(2)
    by (simp add: search_def Let_def set_sortByStart)
qed

lemma chunkScore_miss: "\<not> queryHits q c \<Longrightarrow> chunkScore s (extractKeywords q) c = 0"
  by (simp add: chunkScore_def queryHits_def scoreLoop_miss)

lemma chunkScore_single_hit:
  assumes ok: "state_ok s" and N: "2 \<le> length (chunks s)" and c: "c \<in> set (chunks s)"
    and hit: "queryHits q c"
    and others: "\<forall>c' \<in> set (chunks s). c' \<noteq> c \<longrightarrow> \<not> queryHits q c'"
  shows "0 < chunkScore s (extractKeywords q) c"
proof -
  let ?qk = "extractKeywords q"
  let ?N = "length (chunks s)"
  have ids: "ids_ok (chunks s)" and pos: "kwpos (chunks s)"
    and df: "\<And>w. lookupNat (documentFrequency s) w = length (postings (chunks s) w)"
    using ok by (simp_all add: state_ok_def)
  have tpos: "0 < real tf * ln (real ?N
           / real (case map_of (documentFrequency s) w of
                     None \<Rightarrow> 1 | Some d \<Rightarrow> if d = 0 then 1 else d)) * real f"
    if wf: "(w, f) \<in> set ?qk" and tf: "map_of (chunk_keywords c) w = Some tf" for w f tf
  proof -
    have f: "0 < f" using extractKeywords_pos_all [of q] wf by (auto simp: list_all_iff)
    have "(w, tf) \<in> set (chunk_keywords c)" using tf by (rule map_of_SomeD)
    then have tfpos: "0 < tf" using pos c by (auto simp: kwpos_def list_all_iff)
    have only: "hasKeyword c' w = (c' = c)" if "c' \<in> set (chunks s)" for c'
    proof (cases "c' = c")
      case True
      then show ?thesis using tf by (simp add: hasKeyword_def)
    next
      case False
      then have "\<not> queryHits q c'" using others that by simp
      then show ?thesis using wf False by (auto simp: queryHits_def list_ex_iff)
    qed
    have "filter (\<lambda>c'. hasKeyword c' w) (chunks s) = [c]"
      by (rule filter_singleton [OF ids_ok_distinct [OF ids] c]) (rule only)
    then have "lookupNat (documentFrequency s) w = 1" by (simp add: df postings_def)
    then have "(case map_of (documentFrequency s) w of
                  None \<Rightarrow> 1 | Some d \<Rightarrow> if d = 0 then 1 else d) = (1::nat)"
      by (simp add: lookupNat_def split: option.splits)
    then have d1: "real (case map_of (documentFrequency s) w of
                  None \<Rightarrow> 1 | Some d \<Rightarrow> if d = 0 then 1 else d) = 1"
      by simp
    have "1 < real ?N" using N by simp
    then have "0 < ln (real ?N)" by (rule ln_gt_zero)
    then have "0 < real tf * ln (real ?N) * real f" using f tfpos by simp
    then show ?thesis unfolding d1 by simp
  qed
  have "list_ex (\<lambda>(w, f). hasKeyword c w) ?qk" using hit by (simp add: queryHits_def)
  then have "0 < scoreLoop s c ?qk 0" using scoreLoop_hit [of ?qk c s 0, OF tpos] by simp
  moreover have "0 < 1 + real (chunk_id c) / real ?N * 0.3"
    by (simp add: add_pos_nonneg)
  ultimately show ?thesis unfolding chunkScore_def by (rule mult_pos_pos)
qed

lemma search_single_hit_result:
  assumes ok: "state_ok s" and idx: "isIndexed s" and N: "2 \<le> length (chunks s)"
    and k: "1 \<le> topK" and c: "c \<in> set (chunks s)" and hit: "queryHits q c"
    and others: "\<forall>c' \<in> set (chunks s). c' \<noteq> c \<longrightarrow> \<not> queryHits q c'"
  shows "search s q topK = [Some c]"
proof -
  let ?qk = "extractKeywords q"
  have ids: "ids_ok (chunks s)" using ok by (simp add: state_ok_def)
  have score: "0 < chunkScore s ?qk c"
    by (rule chunkScore_single_hit [OF ok N c hit others])
  have "filter (\<lambda>c'. 0 < chunkScore s ?qk c') (chunks s) = [c]"
  proof (rule filter_singleton [OF ids_ok_distinct [OF ids] c])
    fix c' assume "c' \<in> set (chunks s)"
    then show "(0 < chunkScore s ?qk c') = (c' = c)"
      using score others chunkScore_miss [of q c' s] by (cases "c' = c") auto
  qed
  then have scores: "scoresLoop s ?qk (chunks s) [] = [(chunk_id c, chunkScore s ?qk c)]"
    using scoresLoop_filter [of s ?qk "chunks s" "[]"] score by (simp add: Let_def)
  have qk: "?qk \<noteq> []" using hit by (auto simp: queryHits_def)
  have top: "slice_to [x] topK = [x]" for x :: "nat \<times> real"
    using k by (simp add: slice_to_def relativeIndex_def)
  have sorted: "sortByStart [Some c] = [Some c]" by (simp add: sortByStart_def)
  have ne: "chunks s \<noteq> []" using N by auto
  show ?thesis
    using idx ne qk
    by (simp add: search_def Let_def scores top ids_ok_nth [OF ids c] sorted)
qed

lemma extractKeywords_omega: "extractKeywords ''omega'' = [(''omega'', 1)]"
  by code_simp

lemma extractKeywords_rust: "extractKeywords ''rust'' = [(''rust'', 1)]"
  by code_simp

section \<open>The context budget\<close>

lemma assemble_prefix:
  "allFit ctx pre \<Longrightarrow> assemble ctx (map Some pre @ rest) = assemble (joinTexts ctx pre) rest"
  by (induction ctx pre rule: allFit.induct) (simp_all split: if_splits)

lemma length_joinTexts:
  "list_all (\<lambda>c. length (chunk_text c) \<le> 814) pre \<Longrightarrow>
     length (joinTexts ctx pre) \<le> length ctx + length pre * 816"
  by (induction ctx pre rule: joinTexts.induct) (simp_all, fastforce)

lemma length_search:
  assumes "1 \<le> topK"
  shows "length (search s q topK) \<le> nat topK"
proof -
  have "length (slice_from xs (- topK)) \<le> nat topK" for xs :: "chunk list"
    using assms by (auto simp: slice_from_def relativeIndex_def)
  moreover have "length (slice_to xs topK) \<le> nat topK" for xs :: "(nat \<times> real) list"
    using assms by (auto simp: slice_to_def relativeIndex_def)
  ultimately show ?thesis
    by (simp add: search_def Let_def length_sortByStart)
qed

lemma substring_take: "substring s 0 n = take n s"
  by (simp add: substring_def Let_def min_def)

lemma conversationText_m4: "conversationText (m4 n) = t4 n"
  by (simp add: conversationText_def m4_def roleLabel_def t4_def)

lemma length_t4: "n \<le> 500 \<Longrightarrow> length (t4 n) = 2750" by (simp add: t4_def)

lemma chunkEnd_t4: "n \<le> 500 \<Longrightarrow> chunkEnd (t4 n) start = min (start + 800) 2750"
proof -
  assume n: "n \<le> 500"
  have "nl \<notin> set (t4 n)" "CHR ''.'' \<notin> set (t4 n)" by (simp_all add: t4_def nl_def sp_def)
  then show ?thesis by (simp add: chunkEnd_no_breaks length_t4 [OF n] CHUNK_SIZE_def)
qed

lemma trim_xs: "0 < k \<Longrightarrow> trim (replicate k CHR ''x'') = replicate k CHR ''x''"
  by (rule trim_id) (simp_all add: is_ws_def)

lemma push4a: "n \<le> 500 \<Longrightarrow> pushChunk (t4 n) 0 800 [] = [c4a]"
proof -
  assume n: "n \<le> 500"
  have sub: "substring (t4 n) 0 800 = ''[USER]: '' @ replicate 792 CHR ''x''"
    using n by (simp add: substring_def t4_def min_def)
  have "trim (''[USER]: '' @ replicate 792 CHR ''x'') = ''[USER]: '' @ replicate 792 CHR ''x''"
    by (rule trim_id) (simp_all add: is_ws_def)
  then show ?thesis by (simp add: pushChunk_def Let_def sub c4a_def)
qed

lemma push4b: "n \<le> 500 \<Longrightarrow> pushChunk (t4 n) 650 1450 [c4a] = [c4a, c4b]"
proof -
  assume n: "n \<le> 500"
  have sub: "substring (t4 n) 650 1450 = replicate 800 CHR ''x''"
    using n by (simp add: substring_def t4_def min_def)
  show ?thesis by (simp add: pushChunk_def Let_def sub trim_xs c4b_def)
qed

lemma push4c: "n \<le> 500 \<Longrightarrow> pushChunk (t4 n) 1300 2100 [c4a, c4b] = [c4a, c4b, c4c]"
proof -
  assume n: "n \<le> 500"
  have sub: "substring (t4 n) 1300 2100 = replicate 800 CHR ''x''"
    using n by (simp add: substring_def t4_def min_def)
  show ?thesis by (simp add: pushChunk_def Let_def sub trim_xs c4c_def)
qed

lemma push4d: "n \<le> 500 \<Longrightarrow> pushChunk (t4 n) 1950 2750 [c4a, c4b, c4c] = [c4a, c4b, c4c, c4d n]"
proof -
  assume n: "n \<le> 500"
  have sub: "substring (t4 n) 1950 2750 = replicate (650 - n) CHR ''x'' @ replicate (150 + n) sp"
    using n by (simp add: substring_def t4_def min_def)
  have "trim (replicate (650 - n) CHR ''x'' @ replicate (150 + n) sp) = replicate (650 - n) CHR ''x''"
    using trim_append_ws [OF all_ws_replicate, of "replicate (650 - n) CHR ''x''" "150 + n"]
      trim_xs [of "650 - n"] n
    by simp
  then show ?thesis using n by (simp add: pushChunk_def Let_def sub c4d_def)
qed

lemma tail4: "n \<le> 500 \<Longrightarrow> list_all is_ws (drop 2600 (t4 n))"
proof -
  assume n: "n \<le> 500"
  have "drop 2600 (t4 n) = replicate 150 sp" using n by (simp add: t4_def)
  then show ?thesis by (simp only: all_ws_replicate)
qed

lemma createChunks_t4:
  assumes n: "n \<le> 500"
  shows "createChunks (t4 n) = [c4a, c4b, c4c, c4d n]"
proof -
  note facts = length_t4 [OF n] chunkEnd_t4 [OF n] maxIterations_def CHUNK_OVERLAP_def
  have "createChunks (t4 n) = createChunks_loop (t4 n) 650 (Suc 0) [c4a]"
    unfolding createChunks_def
    by (subst createChunks_loop_step) (simp_all add: facts push4a [OF n])
  also have "\<dots> = createChunks_loop (t4 n) 1300 (Suc (Suc 0)) [c4a, c4b]"
    by (subst createChunks_loop_step) (simp_all add: facts push4b [OF n])
  also have "\<dots> = createChunks_loop (t4 n) 1950 (Suc (Suc (Suc 0))) [c4a, c4b, c4c]"
    by (subst createChunks_loop_step) (simp_all add: facts push4c [OF n])
  also have "\<dots> = createChunks_loop (t4 n) 2600 (Suc (Suc (Suc (Suc 0)))) [c4a, c4b, c4c, c4d n]"
    by (subst createChunks_loop_step) (simp_all add: facts push4d [OF n])
  also have "\<dots> = [c4a, c4b, c4c, c4d n]"
    by (rule createChunks_loop_ws_tail [OF tail4 [OF n]])
  finally show ?thesis .
qed

lemma m4_nonempty: "m4 n \<noteq> []" by (simp add: m4_def)

lemma chunks_s4: "n \<le> 500 \<Longrightarrow> chunks (s4 n) = [c4a, c4b, c4c, c4d n]"
  by (simp add: s4_def indexConversation_rebuild [OF m4_nonempty] conversationText_m4 createChunks_t4)

lemma isIndexed_s4: "isIndexed (s4 n)"
  by (simp add: s4_def indexConversation_rebuild [OF m4_nonempty])

lemma reachable_s4: "reachable (s4 n)"
  unfolding s4_def by (rule reachable_index [OF reachable_init])

lemma search_s4_the:
  "n \<le> 500 \<Longrightarrow> search (s4 n) ''the'' TOP_K = map Some [c4a, c4b, c4c] @ Some (c4d n) # []"
  by (simp add: search_def isIndexed_s4 extractKeywords_the chunks_s4 slice_from_def
      relativeIndex_def TOP_K_def)

lemma length_join4: "length (joinTexts [] [c4a, c4b, c4c]) = 2404"
  by (simp add: c4a_def c4b_def c4c_def)

lemma fit4: "allFit [] [c4a, c4b, c4c]"
  by (simp add: c4a_def c4b_def c4c_def MAX_CONTEXT_CHARS_def)

lemma getContext_s4_fit:
  "getContextForQuery (s4 54) ''the'' = Inr (joinTexts [] [c4a, c4b, c4c, c4d 54])"
proof -
  have search: "search (s4 54) ''the'' TOP_K = map Some [c4a, c4b, c4c, c4d 54] @ []"
    using search_s4_the [of 54] by simp
  have fit: "allFit [] [c4a, c4b, c4c, c4d 54]"
    by (simp add: c4a_def c4b_def c4c_def c4d_def MAX_CONTEXT_CHARS_def)
  have "getContextForQuery (s4 54) ''the'' = assemble [] (map Some [c4a, c4b, c4c, c4d 54] @ [])"
    unfolding search [symmetric] by (simp add: getContextForQuery_def search)
  also have "\<dots> = assemble (joinTexts [] [c4a, c4b, c4c, c4d 54]) []"
    by (rule assemble_prefix [OF fit])
  finally show ?thesis by simp
qed

lemma length_join4_fit: "length (joinTexts [] [c4a, c4b, c4c, c4d 54]) = 3002"
  by (simp add: c4a_def c4b_def c4c_def c4d_def)

section \<open>Windows\<close>

lemma createChunks_loop_windows:
  "createChunks_loop content start iterations cs =
     foldl (\<lambda>cs w. pushChunk content (fst w) (snd w) cs) cs (windows_loop content start iterations)"
proof (induction content start iterations cs rule: createChunks_loop.induct)
  case (1 content start iterations cs)
  show ?case
  proof (cases "start < length content \<and> iterations < maxIterations")
    case False
    then show ?thesis
      by (subst createChunks_loop.simps, subst windows_loop.simps) auto
  next
    case True
    let ?e = "chunkEnd content start"
    let ?start = "max (start + 1) (?e - CHUNK_OVERLAP)"
    show ?thesis
    proof (cases "?start + 30 \<ge> length content")
      case stop: True
      then show ?thesis using True
        by (subst createChunks_loop.simps, subst windows_loop.simps) (simp add: Let_def)
    next
      case go: False
      show ?thesis using True go "1.IH" [OF True refl refl refl go]
        by (subst createChunks_loop.simps, subst windows_loop.simps) (simp add: Let_def)
    qed
  qed
qed

lemma windows_loop_hd:
  "windows_loop content start iterations \<noteq> [] \<Longrightarrow>
     fst (hd (windows_loop content start iterations)) = start"
  by (subst (asm) windows_loop.simps, subst windows_loop.simps) (auto simp: Let_def split: if_splits)

lemma windows_loop_overlap:
  "successively (\<lambda>a b. fst b \<le> snd a) (windows_loop content start iterations)"
proof (induction content start iterations rule: windows_loop.induct)
  case (1 content start iterations)
  show ?case
  proof (cases "start < length content \<and> iterations < maxIterations")
    case False
    then show ?thesis by (subst windows_loop.simps) auto
  next
    case True
    let ?e = "chunkEnd content start"
    let ?start = "max (start + 1) (?e - CHUNK_OVERLAP)"
    have le: "?start \<le> ?e" using chunkEnd_gt [of start content] True by simp
    show ?thesis
    proof (cases "?start + 30 \<ge> length content")
      case stop: True
      then show ?thesis using True by (subst windows_loop.simps) (simp add: Let_def)
    next
      case go: False
      let ?rest = "windows_loop content ?start (iterations + 1)"
      have rest: "successively (\<lambda>a b. fst b \<le> snd a) ?rest"
        by (rule "1.IH" [OF True refl refl go])
      have "?rest = [] \<or> fst (hd ?rest) \<le> ?e"
      proof (cases "?rest = []")
        case False
        then have "fst (hd ?rest) = ?start" by (rule windows_loop_hd)
        then show ?thesis using le by (simp only:) simp
      qed simp
      then have "successively (\<lambda>a b. fst b \<le> snd a) ((start, ?e) # ?rest)"
        using rest by (simp add: successively_Cons)
      then show ?thesis using True go by (subst windows_loop.simps) (simp add: Let_def)
    qed
  qed
qed

text \<open>The spans of the stored chunks are the kept windows, in order.\<close>

lemma spans_foldl_pushChunk:
  "map (\<lambda>c. (chunk_start c, chunk_end c))
       (foldl (\<lambda>cs w. pushChunk content (fst w) (snd w) cs) cs ws)
     = map (\<lambda>c. (chunk_start c, chunk_end c)) cs @ filter (windowKept content) ws"
  by (induction ws arbitrary: cs) (simp_all add: windowKept_def pushChunk_def Let_def)

lemma createChunks_spans:
  "map (\<lambda>c. (chunk_start c, chunk_end c)) (createChunks content)
     = filter (windowKept content) (windows content)"
  by (simp add: createChunks_def windows_def createChunks_loop_windows spans_foldl_pushChunk)

text \<open>The windows start at strictly increasing positions.\<close>

lemma windows_loop_ge:
  "w \<in> set (windows_loop content start iterations) \<Longrightarrow> start \<le> fst w"
proof (induction content start iterations rule: windows_loop.induct)
  case (1 content start iterations)
  show ?case
  proof (cases "start < length content \<and> iterations < maxIterations")
    case False
    then show ?thesis using "1.prems" by (subst (asm) windows_loop.simps) auto
  next
    case True
    let ?e = "chunkEnd content start"
    let ?start = "max (start + 1) (?e - CHUNK_OVERLAP)"
    show ?thesis
    proof (cases "?start + 30 \<ge> length content")
      case stop: True
      then show ?thesis using True "1.prems"
        by (subst (asm) windows_loop.simps) (simp add: Let_def)
    next
      case go: False
      have "w = (start, ?e) \<or> w \<in> set (windows_loop content ?start (iterations + 1))"
        using True go "1.prems" by (subst (asm) windows_loop.simps) (simp add: Let_def)
      then show ?thesis
      proof
        assume "w = (start, ?e)"
        then show ?thesis by simp
      next
        assume "w \<in> set (windows_loop content ?start (iterations + 1))"
        then have "?start \<le> fst w" by (rule "1.IH" [OF True refl refl go])
        then show ?thesis by simp
      qed
    qed
  qed
qed

lemma windows_loop_sorted:
  "sorted_wrt (\<lambda>a b. fst a < fst b) (windows_loop content start iterations)"
proof (induction content start iterations rule: windows_loop.induct)
  case (1 content start iterations)
  show ?case
  proof (cases "start < length content \<and> iterations < maxIterations")
    case False
    then show ?thesis by (subst windows_loop.simps) auto
  next
    case True
    let ?e = "chunkEnd content start"
    let ?start = "max (start + 1) (?e - CHUNK_OVERLAP)"
    show ?thesis
    proof (cases "?start + 30 \<ge> length content")
      case stop: True
      then show ?thesis using True by (subst windows_loop.simps) (simp add: Let_def)
    next
      case go: False
      let ?rest = "windows_loop content ?start (iterations + 1)"
      have rest: "sorted_wrt (\<lambda>a b. fst a < fst b) ?rest"
        by (rule "1.IH" [OF True refl refl go])
      have "start < fst w" if "w \<in> set ?rest" for w
        using windows_loop_ge [OF that] by simp
      then have "sorted_wrt (\<lambda>a b. fst a < fst b) ((start, ?e) # ?rest)"
        using rest by simp
      then show ?thesis using True go by (subst windows_loop.simps) (simp add: Let_def)
    qed
  qed
qed

text \<open>Two consecutive elements of a filtered list are neighbours in the list itself when
  no element between them was filtered out.\<close>

lemma filter_neighbours:
  assumes "sorted_wrt (\<lambda>a b. f a < f b) ws" and "successively R ws"
    and "Suc i < length (filter P ws)"
    and "\<forall>w \<in> set ws. f (filter P ws ! i) < f w \<and> f w < f (filter P ws ! Suc i) \<longrightarrow> P w"
  shows "R (filter P ws ! i) (filter P ws ! Suc i)"
  using assms
proof (induction ws arbitrary: i)
  case Nil
  then show ?case by simp
next
  case (Cons a ws)
  have sorted: "sorted_wrt (\<lambda>a b. f a < f b) ws"
    using Cons.prems(1) by simp
  have succ: "successively R ws"
    using Cons.prems(2) by (cases ws) simp_all
  show ?case
  proof (cases "P a")
    case False
    then have eq: "filter P (a # ws) = filter P ws" by simp
    have len: "Suc i < length (filter P ws)"
      using Cons.prems(3) unfolding eq .
    have btw: "\<forall>w \<in> set ws. f (filter P ws ! i) < f w \<and> f w < f (filter P ws ! Suc i) \<longrightarrow> P w"
    proof (rule ballI)
      fix w assume "w \<in> set ws"
      then have "w \<in> set (a # ws)" by simp
      with Cons.prems(4)
      have "f (filter P (a # ws) ! i) < f w \<and> f w < f (filter P (a # ws) ! Suc i) \<longrightarrow> P w"
        by (rule bspec)
      then show "f (filter P ws ! i) < f w \<and> f w < f (filter P ws ! Suc i) \<longrightarrow> P w"
        unfolding eq .
    qed
    show ?thesis unfolding eq
      by (rule Cons.IH [OF sorted succ len btw])
  next
    case True
    then have eq: "filter P (a # ws) = a # filter P ws" by simp
    show ?thesis
    proof (cases i)
      case (Suc j)
      have len: "Suc j < length (filter P ws)"
        using Cons.prems(3) unfolding eq Suc by simp
      have btw: "\<forall>w \<in> set ws. f (filter P ws ! j) < f w \<and> f w < f (filter P ws ! Suc j) \<longrightarrow> P w"
      proof (rule ballI)
        fix w assume "w \<in> set ws"
        then have "w \<in> set (a # ws)" by simp
        with Cons.prems(4)
        have "f (filter P (a # ws) ! i) < f w \<and> f w < f (filter P (a # ws) ! Suc i) \<longrightarrow> P w"
          by (rule bspec)
        then show "f (filter P ws ! j) < f w \<and> f w < f (filter P ws ! Suc j) \<longrightarrow> P w"
          unfolding eq Suc nth_Cons_Suc .
      qed
      have "R (filter P ws ! j) (filter P ws ! Suc j)"
        by (rule Cons.IH [OF sorted succ len btw])
      then show ?thesis unfolding eq Suc nth_Cons_Suc .
    next
      case 0
      have ne: "filter P ws \<noteq> []"
        using Cons.prems(3) unfolding eq 0 by simp
      then obtain r rest where ws: "ws = r # rest" by (cases ws) simp_all
      have Rar: "R a r" using Cons.prems(2) unfolding ws by simp
      have far: "f a < f r" using Cons.prems(1) unfolding ws by simp
      have goal: "filter P (a # ws) ! 0 = a" "filter P (a # ws) ! Suc 0 = filter P ws ! 0"
        unfolding eq by simp_all
      show ?thesis
      proof (cases "P r")
        case True
        then have "filter P ws ! 0 = r" unfolding ws by simp
        then show ?thesis unfolding 0 goal using Rar by simp
      next
        case False
        then have fr: "filter P ws = filter P rest" unfolding ws by simp
        have "filter P rest \<noteq> []" using ne unfolding fr .
        then have "filter P rest ! 0 \<in> set (filter P rest)"
          by (simp del: set_filter)
        then have "filter P rest ! 0 \<in> set rest" by simp
        then have "f r < f (filter P rest ! 0)"
          using sorted unfolding ws by simp
        then have up: "f r < f (filter P ws ! 0)" unfolding fr .
        have "r \<in> set (a # ws)" unfolding ws by simp
        with Cons.prems(4) have "f (filter P (a # ws) ! i) < f r \<and> f r < f (filter P (a # ws) ! Suc i) \<longrightarrow> P r"
          by (rule bspec)
        then have "P r" unfolding 0 goal using far up by simp
        then show ?thesis using False by simp
      qed
    qed
  qed
qed

lemma createChunks_neighbours:
  assumes "Suc i < length (createChunks content)"
    and "\<forall>w \<in> set (windows content).
           chunk_start (createChunks content ! i) < fst w
           \<and> fst w < chunk_start (createChunks content ! Suc i) \<longrightarrow> windowKept content w"
  shows "chunk_start (createChunks content ! Suc i) \<le> chunk_end (createChunks content ! i)"
proof -
  let ?cs = "createChunks content"
  let ?ws = "windows content"
  let ?kept = "filter (windowKept content) ?ws"
  have spans: "map (\<lambda>c. (chunk_start c, chunk_end c)) ?cs = ?kept"
    by (rule createChunks_spans)
  have len: "length ?kept = length ?cs"
    unfolding spans [symmetric] by simp
  have nth: "?kept ! j = (chunk_start (?cs ! j), chunk_end (?cs ! j))" if "j < length ?cs" for j
    unfolding spans [symmetric] using that by simp
  have i: "Suc i < length ?kept" and i0: "i < length ?cs" using assms(1) len by simp_all
  have "fst (?kept ! Suc i) \<le> snd (?kept ! i)"
  proof (rule filter_neighbours [where f = fst and R = "\<lambda>a b. fst b \<le> snd a", OF _ _ i])
    show "sorted_wrt (\<lambda>a b. fst a < fst b) ?ws"
      unfolding windows_def by (rule windows_loop_sorted)
    show "successively (\<lambda>a b. fst b \<le> snd a) ?ws"
      unfolding windows_def by (rule windows_loop_overlap)
    show "\<forall>w \<in> set ?ws. fst (?kept ! i) < fst w \<and> fst w < fst (?kept ! Suc i) \<longrightarrow> windowKept content w"
      using assms(2) by (simp add: nth [OF i0] nth [OF assms(1)])
  qed
  then show ?thesis by (simp add: nth [OF i0] nth [OF assms(1)])
qed

lemma windows_m5: "windows (conversationText m5) = [(0, 33), (1, 33), (2, 33)]"
  by code_simp

lemma kept_m5:
  "filter (windowKept (conversationText m5)) [(0, 33), (1, 33), (2, 33)] = [(0, 33), (1, 33)]"
  by code_simp

lemma spans_m5:
  "map (\<lambda>c. (chunk_start c, chunk_end c)) (createChunks (conversationText m5)) = [(0, 33), (1, 33)]"
  by code_simp

section \<open>Counting windows\<close>

lemma length_foldl_pushChunk:
  "length (foldl (\<lambda>cs w. pushChunk content (fst w) (snd w) cs) cs ws)
     = length cs + length (filter (windowKept content) ws)"
  by (induction ws arbitrary: cs) (simp_all add: windowKept_def pushChunk_def Let_def)

lemma length_createChunks: "length (createChunks content) = length (filter (windowKept content) (windows content))"
  by (simp add: createChunks_def windows_def createChunks_loop_windows length_foldl_pushChunk)

lemma createChunks_m0: "createChunks (conversationText m0) = []"
  by code_simp

lemma windows_m0: "windows (conversationText m0) = [(0, 10)]"
  by code_simp

section \<open>The claims\<close>

subsection \<open>C1: a query that hits one chunk\<close>

text \<open>
  Claim C1, as the code has it: in every indexed state the engine can reach, when the
  query has a keyword, a chunk with none of the query keywords has score 0 and is not in
  the results; and when the engine holds at least two chunks, \<open>topK\<close> is at least 1 and
  the query keywords appear in exactly one chunk, that chunk has a strictly positive score
  and is the result.
\<close>

theorem search_single_hit:
  assumes "reachable s" and "isIndexed s"
  shows "(\<forall>c' \<in> set (chunks s). extractKeywords q \<noteq> [] \<and> \<not> queryHits q c' \<longrightarrow>
            chunkScore s (extractKeywords q) c' = 0 \<and> Some c' \<notin> set (search s q topK))
       \<and> (2 \<le> length (chunks s) \<and> 1 \<le> topK \<and> c \<in> set (chunks s) \<and> queryHits q c
            \<and> (\<forall>c' \<in> set (chunks s). c' \<noteq> c \<longrightarrow> \<not> queryHits q c') \<longrightarrow>
          0 < chunkScore s (extractKeywords q) c \<and> search s q topK = [Some c])"
proof -
  have ok: "state_ok s" by (rule reachable_state_ok [OF assms(1)])
  then have ids: "ids_ok (chunks s)" by (simp add: state_ok_def)
  have miss: "chunkScore s (extractKeywords q) c' = 0 \<and> Some c' \<notin> set (search s q topK)"
    if "extractKeywords q \<noteq> []" "\<not> queryHits q c'" for c'
  proof -
    have z: "chunkScore s (extractKeywords q) c' = 0" by (rule chunkScore_miss [OF that(2)])
    then show ?thesis using search_scored_subset [OF ids that(1), of topK] by auto
  qed
  show ?thesis
    using miss chunkScore_single_hit [OF ok, of c q] search_single_hit_result [OF ok assms(2), of topK c q]
    by blast
qed

text \<open>
  The engine that has indexed \<open>m2\<close>, with the query \<open>omega\<close>: the second of its two
  chunks is the result.
\<close>

theorem search_single_hit_witness:
  "reachable s2 \<and> isIndexed s2 \<and> chunks s2 = [c2a, c2b]
   \<and> queryHits ''omega'' c2b \<and> \<not> queryHits ''omega'' c2a
   \<and> 0 < chunkScore s2 (extractKeywords ''omega'') c2b
   \<and> chunkScore s2 (extractKeywords ''omega'') c2a = 0
   \<and> search s2 ''omega'' 4 = [Some c2b]"
proof -
  have hit: "queryHits ''omega'' c2b"
    by (simp add: queryHits_def extractKeywords_omega hasKeyword_def c2b_def)
  have miss: "\<not> queryHits ''omega'' c2a"
    by (simp add: queryHits_def extractKeywords_omega hasKeyword_def c2a_def)
  have ne: "c2a \<noteq> c2b" by (simp add: c2a_def c2b_def)
  show ?thesis
    using search_single_hit [OF reachable_s2 isIndexed_s2, of "''omega''" 4 c2b] hit miss ne
    by (simp add: reachable_s2 isIndexed_s2 chunks_s2 extractKeywords_omega)
qed

text \<open>
  Claim C1 as stated fails with a single chunk: the engine has indexed \<open>m1\<close>, the
  query keyword \<open>rust\<close> is in its only chunk, \<open>idf = ln (1 / 1) = 0\<close>, the score is 0
  and the search returns nothing.
\<close>

theorem search_single_chunk_no_result:
  "reachable s1 \<and> isIndexed s1 \<and> chunks s1 = [c1] \<and> queryHits ''rust'' c1
   \<and> chunkScore s1 (extractKeywords ''rust'') c1 = 0 \<and> search s1 ''rust'' 4 = []"
proof -
  have hit: "queryHits ''rust'' c1"
    by (simp add: queryHits_def extractKeywords_rust hasKeyword_def c1_def)
  have df: "documentFrequency s1 = [(''user'', 1), (''rust'', 1), (''ownership'', 1), (''borrowck'', 1)]"
    by (simp add: s1_eq)
  have score: "chunkScore s1 (extractKeywords ''rust'') c1 = 0"
    by (simp add: chunkScore_def extractKeywords_rust chunks_s1 df c1_def)
  have "search s1 ''rust'' 4 = []"
    using score
    by (simp add: search_def isIndexed_s1 chunks_s1 extractKeywords_rust Let_def slice_to_def
        relativeIndex_def sortByStart_def)
  then show ?thesis using hit score by (simp add: reachable_s1 isIndexed_s1 chunks_s1)
qed

subsection \<open>C2: indexConversation on an empty conversation\<close>

text \<open>
  Claim C2, as the code has it: for every engine state, \<open>indexConversation\<close> with an
  empty or absent message sequence returns 0 and leaves the engine as it was. The guard
  returns before the reset, so the indexed flag keeps its value.
\<close>

theorem indexConversation_empty_unchanged:
  "messages = None \<or> messages = Some [] \<Longrightarrow> indexConversation s messages = (0, s)"
  by (auto simp: indexConversation_def)

text \<open>
  The empty conversation on the engine as constructed.
\<close>

theorem indexConversation_empty_unchanged_witness:
  "indexConversation init (Some []) = (0, init)"
  using indexConversation_empty_unchanged [of "Some []" init] by simp

text \<open>
  Claim C2 as stated fails: after \<open>m1\<close> was indexed, an empty conversation returns 0
  and the engine is still indexed.
\<close>

theorem indexConversation_empty_stays_indexed:
  "fst (indexConversation s1 (Some [])) = 0 \<and> isIndexed (snd (indexConversation s1 (Some [])))"
  by (simp add: indexConversation_def isIndexed_s1)

subsection \<open>C3: the count of indexConversation\<close>

text \<open>
  Claim C3, as the code has it: for every non-empty message sequence the count returned
  is the number of chunks stored, which is the number of windows of the transcript whose
  trimmed text has more than 30 characters. So the count is 0 only when every window
  trims to at most 30 characters; for a transcript of at most \<open>CHUNK_SIZE = 800\<close>
  characters the first window is the whole transcript, and there the count is 0 only when
  the transcript trims to at most 30 characters.
\<close>

theorem index_count:
  assumes "ms \<noteq> []"
  shows "fst (indexConversation s (Some ms)) = length (chunks (snd (indexConversation s (Some ms))))
       \<and> fst (indexConversation s (Some ms))
           = length (filter (windowKept (conversationText ms)) (windows (conversationText ms)))
       \<and> (fst (indexConversation s (Some ms)) = 0 \<and> length (conversationText ms) \<le> CHUNK_SIZE \<longrightarrow>
            length (trim (conversationText ms)) \<le> 30)"
proof -
  let ?t = "conversationText ms"
  have count: "fst (indexConversation s (Some ms)) = length (createChunks ?t)"
    and stored: "chunks (snd (indexConversation s (Some ms))) = createChunks ?t"
    by (simp_all add: indexConversation_rebuild [OF assms])
  have first: "length (trim (substring ?t 0 (chunkEnd ?t 0))) \<le> 30" if "length (createChunks ?t) = 0"
    using that createChunks_first_window [of ?t] by fastforce
  have whole: "length (trim ?t) \<le> 30" if "length (createChunks ?t) = 0" "length ?t \<le> CHUNK_SIZE"
    using first [OF that(1)] chunkEnd_short [OF that(2)] by (simp add: substring_def)
  show ?thesis using whole by (simp add: count stored length_createChunks)
qed

text \<open>
  The conversation \<open>m0\<close>: its transcript is 10 characters long, one window, and gives
  no chunk.
\<close>

theorem index_count_witness:
  "m0 \<noteq> [] \<and> fst (indexConversation init (Some m0)) = 0
   \<and> chunks (snd (indexConversation init (Some m0))) = []
   \<and> windows (conversationText m0) = [(0, 10)]
   \<and> length (conversationText m0) \<le> CHUNK_SIZE
   \<and> length (trim (conversationText m0)) \<le> 30"
proof -
  have ne: "m0 \<noteq> []" by (simp add: m0_def)
  have zero: "fst (indexConversation init (Some m0)) = 0"
    and none: "chunks (snd (indexConversation init (Some m0))) = []"
    by (simp_all add: indexConversation_rebuild [OF ne] createChunks_m0)
  have short: "length (conversationText m0) \<le> CHUNK_SIZE"
    by (simp add: conversationText_def m0_def roleLabel_def CHUNK_SIZE_def)
  show ?thesis using index_count [OF ne, of init] ne zero none short windows_m0 by simp
qed

text \<open>
  Claim C3 as stated fails: the transcript of \<open>m3\<close> trims to 901 characters, but each
  of its windows trims to at most 7, and no chunk is stored.
\<close>

theorem index_count_zero_long:
  "m3 \<noteq> [] \<and> fst (indexConversation init (Some m3)) = 0
   \<and> chunks (snd (indexConversation init (Some m3))) = []
   \<and> length (trim (conversationText m3)) = 901"
proof -
  have ne: "m3 \<noteq> []" by (simp add: m3_def)
  show ?thesis
    by (simp add: indexConversation_rebuild [OF ne] conversationText_m3 createChunks_t3
        length_trim_t3 ne)
qed

subsection \<open>C4: truncation of the context\<close>

text \<open>
  Claim C4: in every state the engine can reach, let the chunks found for the query be
  \<open>pre\<close>, then \<open>c\<close>, then \<open>post\<close>. If every chunk of \<open>pre\<close> fits, so that the
  running context at \<open>c\<close> is \<open>joinTexts [] pre\<close>, and adding the text of \<open>c\<close> would
  pass \<open>MAX_CONTEXT_CHARS\<close>, then the result is the running context, the marker
  \<open>...\<close> on a line of its own, the first \<open>MAX_CONTEXT_CHARS - length context - 10\<close> characters of the
  text of \<open>c\<close> and the ellipsis \<open>...\<close>; the chunks of \<open>post\<close> are not looked at. The
  guard \<open>remaining > 50\<close> of the source always holds here: at most three chunks of at
  most 814 characters come before \<open>c\<close>.
\<close>

theorem context_truncation:
  assumes "reachable s"
    and "search s q TOP_K = map Some pre @ Some c # post"
    and "allFit [] pre"
    and "MAX_CONTEXT_CHARS < length (joinTexts [] pre) + length (chunk_text c)"
  shows "getContextForQuery s q =
     Inr (joinTexts [] pre @ [nl] @ ''...'' @ [nl]
           @ take (MAX_CONTEXT_CHARS - length (joinTexts [] pre) - 10) (chunk_text c) @ ''...'')"
proof -
  have ok: "state_ok s" by (rule reachable_state_ok [OF assms(1)])
  then have ids: "ids_ok (chunks s)" and texts: "texts_ok (chunks s)"
    by (simp_all add: state_ok_def)
  have "length (search s q TOP_K) \<le> 4"
    using length_search [of TOP_K s q] by (simp add: TOP_K_def)
  then have n: "length pre \<le> 3" using assms(2) by simp
  have "Some ` set pre \<subseteq> Some ` set (chunks s)"
    using search_subset [OF ids, of q TOP_K] assms(2) by auto
  then have "set pre \<subseteq> set (chunks s)" by auto
  then have "list_all (\<lambda>c. length (chunk_text c) \<le> 814) pre"
    using texts by (auto simp: texts_ok_def list_all_iff)
  then have "length (joinTexts [] pre) \<le> length pre * 816"
    using length_joinTexts [of pre "[]"] by simp
  also have "\<dots> \<le> 3 * 816" using n by simp
  finally have small: "length (joinTexts [] pre) \<le> 2448" by simp
  have "getContextForQuery s q = assemble [] (map Some pre @ Some c # post)"
    using assms(2) by (simp add: getContextForQuery_def)
  also have "\<dots> = assemble (joinTexts [] pre) (Some c # post)"
    by (rule assemble_prefix [OF assms(3)])
  also have "\<dots> = Inr (joinTexts [] pre @ [nl] @ ''...'' @ [nl]
           @ take (MAX_CONTEXT_CHARS - length (joinTexts [] pre) - 10) (chunk_text c) @ ''...'')"
  proof -
    have "nat (int MAX_CONTEXT_CHARS - int (length (joinTexts [] pre)) - 10)
            = MAX_CONTEXT_CHARS - length (joinTexts [] pre) - 10"
      by simp
    then show ?thesis using assms(4) small
      by (simp add: Let_def substring_take MAX_CONTEXT_CHARS_def)
  qed
  finally show ?thesis .
qed

text \<open>
  The engine that has indexed \<open>m4 0\<close>: four chunks of 800, 800, 800 and 650
  characters; the fourth is cut to 586 characters.
\<close>

theorem context_truncation_witness:
  "reachable (s4 0)
   \<and> search (s4 0) ''the'' TOP_K = map Some [c4a, c4b, c4c] @ Some (c4d 0) # []
   \<and> allFit [] [c4a, c4b, c4c]
   \<and> MAX_CONTEXT_CHARS < length (joinTexts [] [c4a, c4b, c4c]) + length (chunk_text (c4d 0))
   \<and> getContextForQuery (s4 0) ''the'' =
       Inr (joinTexts [] [c4a, c4b, c4c] @ [nl] @ ''...'' @ [nl] @ replicate 586 CHR ''x'' @ ''...'')"
proof -
  have search: "search (s4 0) ''the'' TOP_K = map Some [c4a, c4b, c4c] @ Some (c4d 0) # []"
    by (rule search_s4_the) simp
  have over: "MAX_CONTEXT_CHARS < length (joinTexts [] [c4a, c4b, c4c]) + length (chunk_text (c4d 0))"
    unfolding length_join4 by (simp add: c4d_def MAX_CONTEXT_CHARS_def)
  have cut: "take (MAX_CONTEXT_CHARS - length (joinTexts [] [c4a, c4b, c4c]) - 10) (chunk_text (c4d 0))
      = replicate 586 CHR ''x''"
    unfolding length_join4 by (simp add: c4d_def MAX_CONTEXT_CHARS_def)
  show ?thesis
    using context_truncation [OF reachable_s4 search fit4 over]
    unfolding cut
    using reachable_s4 search fit4 over by blast
qed

subsection \<open>C5: consecutive chunks\<close>

text \<open>
  Claim C5, as the code has it: whenever \<open>indexConversation\<close> stores more than one
  chunk, every pair of consecutive stored chunks has \<open>chunk[i+1].start > chunk[i].start\<close>
  and \<open>chunk[i+1].start + CHUNK_OVERLAP \<ge> chunk[i].end\<close>: the next stored chunk starts
  later, and at most 150 characters before the end of this one. The two chunks overlap as
  the claim says, \<open>chunk[i+1].start \<le> chunk[i].end\<close>, whenever no window that the loop
  of \<open>createChunks\<close> visits strictly between their starts was dropped (a window is
  dropped when it trims to 30 characters or fewer); windows dropped elsewhere in the
  transcript do not matter.
\<close>

theorem consecutive_chunks:
  assumes "ms \<noteq> []" and "Suc i < length (chunks (snd (indexConversation s (Some ms))))"
  shows "chunk_start (chunks (snd (indexConversation s (Some ms))) ! i)
           < chunk_start (chunks (snd (indexConversation s (Some ms))) ! Suc i)
       \<and> chunk_end (chunks (snd (indexConversation s (Some ms))) ! i)
           \<le> chunk_start (chunks (snd (indexConversation s (Some ms))) ! Suc i) + CHUNK_OVERLAP
       \<and> ((\<forall>w \<in> set (windows (conversationText ms)).
              chunk_start (chunks (snd (indexConversation s (Some ms))) ! i) < fst w
              \<and> fst w < chunk_start (chunks (snd (indexConversation s (Some ms))) ! Suc i)
              \<longrightarrow> windowKept (conversationText ms) w) \<longrightarrow>
            chunk_start (chunks (snd (indexConversation s (Some ms))) ! Suc i)
              \<le> chunk_end (chunks (snd (indexConversation s (Some ms))) ! i))"
proof -
  let ?cs = "chunks (snd (indexConversation s (Some ms)))"
  have cs: "?cs = createChunks (conversationText ms)"
    by (simp add: indexConversation_rebuild [OF assms(1)])
  have "chunks_ordered ?cs"
    using state_ok_rebuild [OF assms(1), of s] by (simp add: state_ok_def)
  then have "chunk_start (?cs ! i) < chunk_start (?cs ! Suc i)
       \<and> chunk_end (?cs ! i) \<le> chunk_start (?cs ! Suc i) + CHUNK_OVERLAP"
    using assms(2) by (rule chunks_ordered_nth)
  moreover have "chunk_start (?cs ! Suc i) \<le> chunk_end (?cs ! i)"
    if "\<forall>w \<in> set (windows (conversationText ms)).
          chunk_start (?cs ! i) < fst w \<and> fst w < chunk_start (?cs ! Suc i)
          \<longrightarrow> windowKept (conversationText ms) w"
    using createChunks_neighbours [of i "conversationText ms"] assms(2) that unfolding cs by blast
  ultimately show ?thesis by blast
qed

text \<open>
  The conversation \<open>m5\<close>: a transcript of 33 characters with three windows. The last
  window is dropped, the first two are stored and overlap.
\<close>

theorem consecutive_chunks_witness:
  "m5 \<noteq> [] \<and> windows (conversationText m5) = [(0, 33), (1, 33), (2, 33)]
   \<and> filter (windowKept (conversationText m5)) (windows (conversationText m5)) = [(0, 33), (1, 33)]
   \<and> length (chunks (snd (indexConversation init (Some m5)))) = 2
   \<and> chunk_start (chunks (snd (indexConversation init (Some m5))) ! 0)
        < chunk_start (chunks (snd (indexConversation init (Some m5))) ! Suc 0)
   \<and> chunk_end (chunks (snd (indexConversation init (Some m5))) ! 0)
        \<le> chunk_start (chunks (snd (indexConversation init (Some m5))) ! Suc 0) + CHUNK_OVERLAP
   \<and> chunk_start (chunks (snd (indexConversation init (Some m5))) ! Suc 0)
        \<le> chunk_end (chunks (snd (indexConversation init (Some m5))) ! 0)"
proof -
  let ?cs = "chunks (snd (indexConversation init (Some m5)))"
  have ne: "m5 \<noteq> []" by (simp add: m5_def)
  have cs: "?cs = createChunks (conversationText m5)"
    by (simp add: indexConversation_rebuild [OF ne])
  have "length (map (\<lambda>c. (chunk_start c, chunk_end c)) (createChunks (conversationText m5))) = 2"
    unfolding spans_m5 by simp
  then have two: "length ?cs = 2" by (simp add: cs)
  then have lt: "Suc 0 < length ?cs" by simp
  have "map (\<lambda>c. (chunk_start c, chunk_end c)) ?cs ! 0 = (0, 33)"
    "map (\<lambda>c. (chunk_start c, chunk_end c)) ?cs ! Suc 0 = (1, 33)"
    unfolding cs spans_m5 by simp_all
  then have starts: "chunk_start (?cs ! 0) = 0" "chunk_start (?cs ! Suc 0) = 1"
    using two by simp_all
  have between: "\<forall>w \<in> set (windows (conversationText m5)).
      chunk_start (?cs ! 0) < fst w \<and> fst w < chunk_start (?cs ! Suc 0)
      \<longrightarrow> windowKept (conversationText m5) w"
    unfolding starts by auto
  have kept: "filter (windowKept (conversationText m5)) (windows (conversationText m5)) = [(0, 33), (1, 33)]"
    unfolding windows_m5 by (rule kept_m5)
  note all = consecutive_chunks [OF ne lt]
  have overlap: "chunk_start (?cs ! Suc 0) \<le> chunk_end (?cs ! 0)"
    by (rule mp [OF conjunct2 [OF conjunct2 [OF all]] between])
  show ?thesis
    using ne windows_m5 kept two conjunct1 [OF all] conjunct1 [OF conjunct2 [OF all]] overlap
    by blast
qed

text \<open>
  Claim C5 as stated fails: in \<open>m2\<close> the window between the two stored chunks is all
  white space and is dropped, so the second chunk starts at 1300, after the end 800 of the
  first.
\<close>

theorem consecutive_chunks_gap:
  "length (chunks s2) = 2 \<and> chunk_end (chunks s2 ! 0) = 800 \<and> chunk_start (chunks s2 ! 1) = 1300
   \<and> \<not> chunk_start (chunks s2 ! 1) \<le> chunk_end (chunks s2 ! 0)"
  by (simp add: chunks_s2 c2a_def c2b_def)

subsection \<open>C6: a query without keywords\<close>

text \<open>
  Claim C6 fails at \<open>topK = 0\<close>: the engine has indexed \<open>m1\<close> and holds one chunk,
  the query \<open>the\<close> is a stop word and has no keywords, and \<open>search\<close> returns the
  chunk, where the last 0 chunks are none: \<open>chunks.slice(-0)\<close> is the whole array. For
  \<open>topK \<ge> 1\<close> the result is the last \<open>topK\<close> chunks (lemma \<open>search_no_keywords\<close>).
\<close>

theorem search_no_keywords_zero:
  "isIndexed s1 \<and> extractKeywords ''the'' = [] \<and> chunks s1 = [c1]
   \<and> search s1 ''the'' 0 = [Some c1]"
  by (simp add: isIndexed_s1 extractKeywords_the search_s1_the slice_from_def relativeIndex_def
      chunks_s1)

text \<open>
  The result at \<open>topK = 0\<close> has one element.
\<close>

theorem search_no_keywords_zero_witness: "length (search s1 ''the'' 0) = 1"
  using search_no_keywords_zero by simp

subsection \<open>C7: the length of the context\<close>

text \<open>
  Claim C7: whatever the state and the query, a string returned by
  \<open>getContextForQuery\<close> is at most \<open>MAX_CONTEXT_CHARS + 2 = 3002\<close> characters long, and
  in every state the engine can reach a string is returned. The two characters are the
  blank-line separator before the last chunk that fits: the test that a chunk fits does not
  count it. The truncated form, with its ellipsis markers, stays below 3000.
\<close>

theorem context_bounded:
  "(getContextForQuery s q = Inr r \<longrightarrow> length r \<le> MAX_CONTEXT_CHARS + 2)
   \<and> (reachable s \<longrightarrow> (\<exists>r'. getContextForQuery s q = Inr r' \<and> length r' \<le> MAX_CONTEXT_CHARS + 2))"
proof -
  have "\<exists>r'. getContextForQuery s q = Inr r' \<and> length r' \<le> MAX_CONTEXT_CHARS + 2" if "reachable s"
  proof -
    have "ids_ok (chunks s)" using reachable_state_ok [OF that] by (simp add: state_ok_def)
    then obtain r' where "getContextForQuery s q = Inr r'"
      using getContextForQuery_returns by blast
    then show ?thesis using getContextForQuery_bound by blast
  qed
  then show ?thesis using getContextForQuery_bound by blast
qed

text \<open>
  The engine that has indexed \<open>m4 54\<close>: four chunks of 800, 800, 800 and 596
  characters all fit, and the context is 3002 characters long.
\<close>

theorem context_bounded_witness:
  "reachable (s4 54)
   \<and> getContextForQuery (s4 54) ''the'' = Inr (joinTexts [] [c4a, c4b, c4c, c4d 54])
   \<and> length (joinTexts [] [c4a, c4b, c4c, c4d 54]) = MAX_CONTEXT_CHARS + 2"
proof -
  have len: "length (joinTexts [] [c4a, c4b, c4c, c4d 54]) = MAX_CONTEXT_CHARS + 2"
    unfolding length_join4_fit by (simp add: MAX_CONTEXT_CHARS_def)
  show ?thesis
    using context_bounded [of "s4 54" "''the''" "joinTexts [] [c4a, c4b, c4c, c4d 54]"]
      reachable_s4 [of 54] getContext_s4_fit len
    by blast
qed

subsection \<open>C8: rebuilding twice\<close>

text \<open>
  Claim C8: \<open>indexConversation\<close> called a second time with the same messages returns the
  same count and stores the same chunk sequence (ids, texts and offsets); the whole
  engine state is the same.
\<close>

theorem indexConversation_twice:
  "fst (indexConversation (snd (indexConversation s messages)) messages)
     = fst (indexConversation s messages)
   \<and> chunks (snd (indexConversation (snd (indexConversation s messages)) messages))
     = chunks (snd (indexConversation s messages))
   \<and> snd (indexConversation (snd (indexConversation s messages)) messages)
     = snd (indexConversation s messages)"
  by (cases messages) (simp_all add: indexConversation_def buildKeywordIndex_def Let_def)

text \<open>
  The conversation \<open>m1\<close>, indexed twice.
\<close>

theorem indexConversation_twice_witness:
  "fst (indexConversation s1 (Some m1)) = fst (indexConversation init (Some m1))
   \<and> chunks (snd (indexConversation s1 (Some m1))) = chunks s1"
  using indexConversation_twice [of init "Some m1"] by (simp add: s1_def)

subsection \<open>C9: no operation fails\<close>

text \<open>
  Claim C9: in every state the engine can reach, for every message sequence (absent,
  empty or not), every query string and every integer \<open>topK\<close>, the four operations
  complete: \<open>search\<close> returns chunks only (no \<open>undefined\<close> element),
  \<open>getContextForQuery\<close> returns a string and raises no \<open>TypeError\<close>,
  \<open>indexConversation\<close> and \<open>clear\<close> return a state of the engine (the chunking loop
  is a total function: its termination is proved with its definition). The edge cases
  give the default results: an absent or empty conversation returns 0, and an engine that
  is not indexed, has no chunks or was cleared answers both queries with the empty result.
\<close>

theorem operations_complete:
  assumes "reachable s"
  shows "None \<notin> set (search s q topK)
       \<and> (\<exists>r. getContextForQuery s q = Inr r)
       \<and> reachable (snd (indexConversation s messages))
       \<and> reachable (clear s)
       \<and> fst (indexConversation s None) = 0 \<and> fst (indexConversation s (Some [])) = 0
       \<and> (\<not> isIndexed s \<or> chunks s = [] \<longrightarrow>
            search s q topK = [] \<and> getContextForQuery s q = Inr [])
       \<and> search (clear s) q topK = [] \<and> getContextForQuery (clear s) q = Inr []"
proof -
  have ok: "ids_ok (chunks s)" using reachable_state_ok [OF assms] by (simp add: state_ok_def)
  have c: "search (clear s) q k = []" for k by (simp add: search_def clear_def)
  have d: "getContextForQuery (clear s) q = Inr []" by (simp add: getContextForQuery_def c)
  have e: "search s q k = []" if "\<not> isIndexed s \<or> chunks s = []" for k
    using that by (auto simp: search_def)
  have f: "getContextForQuery s q = Inr []" if "\<not> isIndexed s \<or> chunks s = []"
    by (simp add: getContextForQuery_def e [OF that])
  have g: "fst (indexConversation s None) = 0" "fst (indexConversation s (Some [])) = 0"
    by (simp_all add: indexConversation_def)
  show ?thesis
    using search_defined [OF ok] getContextForQuery_returns [OF ok] c d e f g
      reachable_index [OF assms] reachable_clear [OF assms]
    by blast
qed

text \<open>
  The operations on the engine that has indexed \<open>m1\<close>, on the engine cleared after
  that, and on the engine as constructed.
\<close>

theorem operations_complete_witness:
  "reachable s1
   \<and> None \<notin> set (search s1 ''the'' 4)
   \<and> getContextForQuery s1 ''the'' = Inr ''[USER]: rust ownership borrowck''
   \<and> search (clear s1) ''the'' 4 = []
   \<and> getContextForQuery (clear s1) ''the'' = Inr []
   \<and> reachable init \<and> \<not> isIndexed init
   \<and> search init ''the'' 4 = [] \<and> getContextForQuery init ''the'' = Inr []"
proof -
  have "\<not> isIndexed init" by (simp add: init_def)
  then show ?thesis
    using operations_complete [OF reachable_s1, of "''the''" 4 None]
      operations_complete [OF reachable_init, of "''the''" 4 None]
    by (simp add: reachable_s1 reachable_init getContext_s1_the)
qed

subsection \<open>C10: the inverted index after a rebuild\<close>

text \<open>
  Claim C10: after \<open>indexConversation\<close> has rebuilt the index from a non-empty
  conversation, for every term the document frequency is the length of the term's posting
  list, which is the number of distinct chunks whose keyword map has the term; the
  posting list is in strictly ascending order of chunk id (it lists, in order, the ids of
  the chunks that have the term), and a term has a document frequency exactly when it has
  a posting list.
\<close>

theorem index_consistent:
  fixes s :: indexer and ms :: "message list" and w :: string
  assumes "ms \<noteq> []"
  defines "s' \<equiv> snd (indexConversation s (Some ms))"
  shows "lookupNat (documentFrequency s') w = length (lookupList (keywordIndex s') w)
       \<and> length (lookupList (keywordIndex s') w) = card {c \<in> set (chunks s'). hasKeyword c w}
       \<and> sorted_wrt (<) (lookupList (keywordIndex s') w)
       \<and> lookupList (keywordIndex s') w = postings (chunks s') w
       \<and> ((map_of (documentFrequency s') w = None) = (map_of (keywordIndex s') w = None))"
proof -
  let ?cs = "createChunks (conversationText ms)"
  have s': "chunks s' = ?cs" "keywordIndex s' = fst (buildKeywordIndex_loop ?cs ([], []))"
    "documentFrequency s' = snd (buildKeywordIndex_loop ?cs ([], []))"
    unfolding s'_def by (simp_all add: indexConversation_rebuild [OF assms(1)])
  have kw: "keywords_ok ?cs" by (rule keywords_ok_createChunks)
  have ids: "ids_ok ?cs" by (rule ids_ok_createChunks)
  show ?thesis
    unfolding s'
    by (simp add: keywordIndex_rebuild [OF kw] documentFrequency_rebuild [OF kw]
        postings_sorted [OF ids] postings_card [OF ids]
        buildKeywordIndex_loop_ki [OF kw] buildKeywordIndex_loop_df [OF kw])
qed

text \<open>
  The rebuild for the conversation \<open>m1\<close>, at the term \<open>rust\<close>.
\<close>

theorem index_consistent_witness:
  "m1 \<noteq> []
   \<and> lookupNat (documentFrequency s1) ''rust'' = 1
   \<and> lookupList (keywordIndex s1) ''rust'' = [0]
   \<and> card {c \<in> set (chunks s1). hasKeyword c ''rust''} = 1"
  using index_consistent [of m1 init "''rust''"]
  unfolding s1_def [symmetric]
  by (simp add: m1_def s1_eq lookupNat_def lookupList_def)

end
